theory Spec2Isabelle
  imports Main
begin

section \<open>The threaded web spider (spider.py): data model\<close>

text \<open>
  The module crawls a site level by level. \<open>Spider.spider\<close> runs on the control thread and
  hands \<open>Spider._processPage\<close> tasks to a thread pool; every task works on the one shared
  \<open>SpiderResults\<close> object. The model below has two layers built from the same pieces:
  \<^item> the bodies of the source functions as pure functions on \<open>results\<close>
    (\<open>get_try\<close>, \<open>get_finally\<close>, \<open>get_graph_init\<close>, \<open>process_response\<close>, \<open>link_body\<close>) and their
    sequential compositions \<open>Spider_get\<close> and \<open>Spider_processPage\<close>;
  \<^item> an interleaving semantics (\<open>step\<close>, \<open>run\<close>) in which the control thread and the tasks
    take turns, one lock-delimited block of the source per step, under any schedule.
  What lies outside the module is a parameter or a value of the model: the network
  (\<open>urllib2.urlopen\<close>) is a function \<open>web\<close> from the number of calls made so far and the
  address to an outcome; an HTTP response carries the two headers the code reads and what
  \<open>lxml.html.parse(response).getroot()\<close> makes of its body; the user callbacks are either
  registered or not, and a registered callback is an event of the trace that returns
  normally and leaves the results alone.
\<close>

type_synonym url = string

type_synonym element = string

text \<open>One item of \<open>html.iterlinks()\<close>: \<open>(element, attribute, link, pos)\<close>.\<close>

type_synonym link_occ = "element \<times> string \<times> url \<times> nat"

datatype exc_type =
    URLError | HTTPError | SocketTimeout | ParserError
  | AttributeError | KeyError | IndexError | RuntimeError | OtherError string

text \<open>
  What \<open>lxml.html.parse(response).getroot()\<close> gives: the call raises, or the root is
  \<open>None\<close> (no document could be built from the body), or there is a root element; of the
  root only the items of \<open>iterlinks()\<close>, after \<open>make_links_absolute()\<close>, matter.
\<close>

datatype parsed = ParseRaises exc_type | NoRoot | Root "link_occ list"

text \<open>
  An \<open>urllib2\<close> response: \<open>geturl()\<close>, the headers \<open>content-type\<close> and
  \<open>content-encoding\<close> (\<open>getheader\<close> gives \<open>None\<close> for an absent header), and the body as
  the parser sees it.
\<close>

record response =
  geturl :: url
  header_content_type :: "string option"
  header_content_encoding :: "string option"
  body :: parsed

datatype outcome = Raises exc_type | Returns response

text \<open>The dictionary stored in \<open>results.visited[url]\<close>, one field per key.\<close>

record visit =
  v_redirected :: bool
  v_redirectUrl :: url
  v_content_type :: "string option"
  v_content_enc :: "string option"
  v_dead :: bool
  v_exc :: "exc_type option"
  v_times :: int

text \<open>Class \<open>SpiderResults\<close>; \<open>urls\<close> is the deque \<open>_urls\<close>, \<open>root\<close> is set by \<open>spider\<close>.\<close>

record results =
  graph :: "url \<rightharpoonup> url list"
  visited :: "url \<rightharpoonup> visit"
  urls :: "url list"
  root :: "url option"

definition SpiderResults :: results where
  "SpiderResults = \<lparr>graph = Map.empty, visited = Map.empty, urls = [], root = None\<rparr>"

text \<open>
  Class \<open>Spider\<close>: the constructor's arguments (\<open>self.url\<close> is \<open>self_url\<close>, since
  \<open>url\<close> names the parameter of the methods), and for each callback whether one is
  registered (\<open>not self.linkCallback is None\<close>).
\<close>

record spider =
  self_url :: url
  maxDepth :: int
  timeout :: int
  threads :: int
  linkCallback :: bool
  responseCallback :: bool
  htmlCallback :: bool
  levelCallback :: bool

text \<open>
  What a thread does to the outside: the \<open>urlopen\<close> call, the \<open>log.debug\<close> calls and the
  callback invocations, in the order they happen.
\<close>

datatype event =
    Urlopen url
  | LogSpidering url | LogLevel int | LogComplete
  | LogProcessing url | LogConnecting url | LogProblem exc_type
  | LogFoundHtml | LogFoundLink url
  | CbLevel int | CbResponse url | CbHtml url | CbLink url url element

section \<open>The module-level helpers\<close>

text \<open>
  \<open>mime\<close>: \<open>response.info().getheader('content-type').split(';')[0]\<close>. With no such header
  \<open>getheader\<close> returns \<open>None\<close> and \<open>.split\<close> raises \<open>AttributeError\<close>.
\<close>

definition mime :: "response \<Rightarrow> exc_type + string" where
  "mime response =
     (case header_content_type response of
        None \<Rightarrow> Inl AttributeError
      | Some ct \<Rightarrow> Inr (takeWhile (\<lambda>ch. ch \<noteq> CHR '';'') ct))"

definition ishtml :: "response \<Rightarrow> exc_type + bool" where
  "ishtml response =
     (case mime response of
        Inl e \<Rightarrow> Inl e
      | Inr mimeType \<Rightarrow> Inr (mimeType \<in> set [''text/html'']))"

definition isimage :: "response \<Rightarrow> exc_type + bool" where
  "isimage response =
     (case mime response of
        Inl e \<Rightarrow> Inl e
      | Inr mimeType \<Rightarrow>
          Inr (mimeType \<in> set [''image/gif'', ''image/bmp'', ''image/jpeg'', ''image/png'']))"

section \<open>Spider._get\<close>

text \<open>The local variables of \<open>_get\<close> that outlive the \<open>try\<close> statement.\<close>

record locals =
  response :: "response option"
  isDead :: bool
  redirected :: bool
  contentType :: "string option"
  redirectUrl :: url
  contentEnc :: "string option"
  exc :: "exc_type option"

text \<open>
  The initialisations and the \<open>try\<close>/\<open>except\<close> of \<open>_get\<close>: the \<open>clk\<close>-th call of
  \<open>urlopen\<close> either returns a response, whose address and headers are read, or raises, and
  the bare \<open>except\<close> catches whatever was raised and keeps its type.
\<close>

definition get_try :: "(nat \<Rightarrow> url \<Rightarrow> outcome) \<Rightarrow> nat \<Rightarrow> url \<Rightarrow> locals \<times> event list" where
  "get_try web clk url =
     (case web clk url of
        Returns resp \<Rightarrow>
          (\<lparr>response = Some resp, isDead = False,
            redirected = (\<not> url = geturl resp),
            contentType = header_content_type resp,
            redirectUrl = geturl resp,
            contentEnc = header_content_encoding resp,
            exc = None\<rparr>,
           [LogConnecting url, Urlopen url])
      | Raises e \<Rightarrow>
          (\<lparr>response = None, isDead = True,
            redirected = False,
            contentType = Some [],
            redirectUrl = url,
            contentEnc = Some [],
            exc = Some e\<rparr>,
           [LogConnecting url, Urlopen url, LogProblem e]))"

text \<open>The first half of the \<open>finally\<close> block: the attempt counter and the visit record.\<close>

definition get_finally :: "url \<Rightarrow> locals \<Rightarrow> results \<Rightarrow> results" where
  "get_finally url l results =
     (let times = (case visited results url of
                     Some v \<Rightarrow> v_times v + 1
                   | None \<Rightarrow> 1)
      in results\<lparr>visited := (visited results)(url \<mapsto>
           \<lparr>v_redirected = redirected l,
            v_redirectUrl = redirectUrl l,
            v_content_type = contentType l,
            v_content_enc = contentEnc l,
            v_dead = isDead l,
            v_exc = exc l,
            v_times = times\<rparr>)\<rparr>)"

text \<open>The second half, run with the graph lock held: the key of a page that answered.\<close>

definition get_graph_init :: "url \<Rightarrow> locals \<Rightarrow> results \<Rightarrow> results" where
  "get_graph_init url l results =
     (if \<not> isDead l \<and> graph results url = None
      then results\<lparr>graph := (graph results)(url \<mapsto> [])\<rparr>
      else results)"

text \<open>
  \<open>_get\<close> run without interference: the returned response, the results afterwards and the
  events. The \<open>return\<close> inside \<open>finally\<close> is the only exit of the function.
\<close>

definition Spider_get ::
  "(nat \<Rightarrow> url \<Rightarrow> outcome) \<Rightarrow> nat \<Rightarrow> url \<Rightarrow> results \<Rightarrow> response option \<times> results \<times> event list" where
  "Spider_get web clk url results =
     (case get_try web clk url of
        (l, evs) \<Rightarrow>
          (response l, get_graph_init url l (get_finally url l results), evs))"

section \<open>Spider._processPage\<close>

text \<open>
  From the return of \<open>_get\<close> to the head of the \<open>for\<close> loop. \<open>Inr None\<close> is one of the three
  early \<open>return\<close>s, \<open>Inr (Some links)\<close> the items the loop will visit, \<open>Inl e\<close> an exception
  that leaves \<open>_processPage\<close> (raised by \<open>ishtml\<close> or by the parser).
\<close>

definition process_response ::
  "spider \<Rightarrow> url \<Rightarrow> response option \<Rightarrow> (exc_type + link_occ list option) \<times> event list" where
  "process_response sp url rsp =
     (case rsp of
        None \<Rightarrow> (Inr None, [])
      | Some resp \<Rightarrow>
          (let evs = (if responseCallback sp then [CbResponse url] else [])
           in case ishtml resp of
                Inl e \<Rightarrow> (Inl e, evs)
              | Inr False \<Rightarrow> (Inr (Some []), evs)
              | Inr True \<Rightarrow>
                  (case body resp of
                     ParseRaises e \<Rightarrow> (Inl e, evs)
                   | NoRoot \<Rightarrow> (Inr None, evs)
                   | Root links \<Rightarrow>
                       (Inr (Some links),
                        evs @ [LogFoundHtml] @ (if htmlCallback sp then [CbHtml url] else [])))))"

text \<open>
  The body of the \<open>try\<close> inside the loop, run with the graph lock held. The conjunction is
  evaluated left to right, so \<open>results.graph[url]\<close> is looked up (and can raise
  \<open>KeyError\<close>) only when the three tests before it hold.
\<close>

definition link_body ::
  "spider \<Rightarrow> url \<Rightarrow> link_occ \<Rightarrow> results \<Rightarrow> (exc_type + results) \<times> event list" where
  "link_body sp url occ results =
     (case occ of (element, attribute, link, pos) \<Rightarrow>
        if attribute = ''href'' \<and> link \<notin> set (urls results) \<and> visited results link = None
        then (case graph results url of
                None \<Rightarrow> (Inl KeyError, [])
              | Some adj \<Rightarrow>
                  if link \<notin> set adj
                  then (Inr (results\<lparr>urls := urls results @ [link],
                                     graph := (graph results)(url \<mapsto> adj @ [link])\<rparr>),
                        [LogFoundLink link] @
                        (if linkCallback sp then [CbLink url link element] else []))
                  else (Inr results, []))
        else (Inr results, []))"

text \<open>The \<open>for\<close> loop run without interference; an exception ends it.\<close>

fun iterlinks_loop ::
  "spider \<Rightarrow> url \<Rightarrow> link_occ list \<Rightarrow> results \<Rightarrow> (exc_type + unit) \<times> results \<times> event list" where
  "iterlinks_loop sp url [] results = (Inr (), results, [])"
| "iterlinks_loop sp url (occ # rest) results =
     (case link_body sp url occ results of
        (Inl e, evs) \<Rightarrow> (Inl e, results, evs)
      | (Inr results', evs) \<Rightarrow>
          (case iterlinks_loop sp url rest results' of
             (x, results'', evs') \<Rightarrow> (x, results'', evs @ evs')))"

text \<open>\<open>_processPage\<close> run without interference.\<close>

definition Spider_processPage ::
  "spider \<Rightarrow> (nat \<Rightarrow> url \<Rightarrow> outcome) \<Rightarrow> nat \<Rightarrow> url \<Rightarrow> results \<Rightarrow>
     (exc_type + unit) \<times> results \<times> event list" where
  "Spider_processPage sp web clk url results =
     (case Spider_get web clk url results of
        (rsp, results1, evs1) \<Rightarrow>
          (case process_response sp url rsp of
             (Inl e, evs2) \<Rightarrow> (Inl e, results1, [LogProcessing url] @ evs1 @ evs2)
           | (Inr None, evs2) \<Rightarrow> (Inr (), results1, [LogProcessing url] @ evs1 @ evs2)
           | (Inr (Some links), evs2) \<Rightarrow>
               (case iterlinks_loop sp url links results1 of
                  (x, results2, evs3) \<Rightarrow>
                    (x, results2, [LogProcessing url] @ evs1 @ evs2 @ evs3))))"

section \<open>Threads, locks and the thread pool\<close>

text \<open>
  A thread is the control thread, which runs \<open>Spider.spider\<close>, or the pool thread that runs
  the task with a given number (tasks are numbered in the order of \<open>add_task\<close>).
\<close>

datatype thread = Main | Worker nat

text \<open>
  \<open>threading.RLock\<close>: free, or owned by a thread some number of times. \<open>acquire\<close> by the
  owner counts up, by another thread it blocks (\<open>None\<close>: the step is not enabled);
  \<open>release\<close> by a thread that does not own the lock raises \<open>RuntimeError\<close>.
\<close>

type_synonym rlock = "(nat \<times> nat) option"

definition rlock_acquire :: "nat \<Rightarrow> rlock \<Rightarrow> rlock option" where
  "rlock_acquire t lk =
     (case lk of
        None \<Rightarrow> Some (Some (t, 1))
      | Some (owner, n) \<Rightarrow> if owner = t then Some (Some (t, n + 1)) else None)"

definition rlock_release :: "nat \<Rightarrow> rlock \<Rightarrow> exc_type + rlock" where
  "rlock_release t lk =
     (case lk of
        None \<Rightarrow> Inl RuntimeError
      | Some (owner, n) \<Rightarrow>
          if owner \<noteq> t then Inl RuntimeError
          else if n = 1 then Inr None
          else Inr (Some (owner, n - 1)))"

text \<open>
  Where a task stands. Each constructor is the point before one block of
  \<open>_processPage\<close> or of the \<open>_get\<close> it calls; the arguments are the local variables that
  are live there.
\<close>

datatype wpc =
    W_Queued
  | W_Acquire
  | W_Connect
  | W_Finally locals
  | W_GraphAcquire locals
  | W_GraphInit locals
  | W_GraphRelease locals
  | W_ConnRelease locals
  | W_Response "response option"
  | W_Iter "link_occ list"
  | W_Body link_occ "link_occ list"
  | W_Unlock "link_occ list" "exc_type option"
  | W_Done
  | W_Raised exc_type

text \<open>
  A task: the address given to \<open>add_task\<close>, the level for which it was submitted (the
  seed is level 1; the level is bookkeeping of the model, the code does not store it) and
  where it stands.
\<close>

record task =
  t_url :: url
  t_level :: int
  t_pc :: wpc

text \<open>Where the control thread stands in \<open>spider\<close>; \<open>d\<close> is \<open>depth\<close>, \<open>n\<close> what is left of \<open>range(len(results._urls))\<close>.\<close>

datatype mpc =
    M_Start
  | M_While int
  | M_Wait int
  | M_Drain int nat
  | M_FinalWait int
  | M_Done
  | M_Raised exc_type

record config =
  res :: results
  tasks :: "task list"
  main :: mpc
  connectLock :: rlock
  graphLock :: rlock
  netclock :: nat
  trace :: "(thread \<times> event) list"

definition init :: config where
  "init = \<lparr>res = SpiderResults, tasks = [], main = M_Start,
            connectLock = None, graphLock = None, netclock = 0, trace = []\<rparr>"

definition terminal :: "wpc \<Rightarrow> bool" where
  "terminal p = (case p of W_Done \<Rightarrow> True | W_Raised e \<Rightarrow> True | _ \<Rightarrow> False)"

definition active :: "wpc \<Rightarrow> bool" where
  "active p = (case p of W_Queued \<Rightarrow> False | W_Done \<Rightarrow> False | W_Raised e \<Rightarrow> False | _ \<Rightarrow> True)"

text \<open>
  Modelled from the spec: the worker pool (module \<open>ThreadPool\<close>, not part of the sources).
  It "executes submitted units of work on a fixed number of concurrent workers", and
  \<open>waitForIdle()\<close> "blocks until all submitted work, including work submitted during
  execution of other work, has completed". So \<open>add_task\<close> queues a task; a queued task
  starts when fewer than \<open>threads\<close> tasks are running; a task that ended, by returning or
  by raising, has completed; \<open>wait_completion\<close> returns when every task has completed.
\<close>

definition add_task :: "url \<Rightarrow> int \<Rightarrow> config \<Rightarrow> config" where
  "add_task u lvl c = c\<lparr>tasks := tasks c @ [\<lparr>t_url = u, t_level = lvl, t_pc = W_Queued\<rparr>]\<rparr>"

definition running :: "config \<Rightarrow> nat" where
  "running c = length (filter (\<lambda>tk. active (t_pc tk)) (tasks c))"

definition wait_completion :: "config \<Rightarrow> bool" where
  "wait_completion c = list_all (\<lambda>tk. terminal (t_pc tk)) (tasks c)"

definition set_pc :: "nat \<Rightarrow> wpc \<Rightarrow> config \<Rightarrow> config" where
  "set_pc t p c = c\<lparr>tasks := (tasks c)[t := (tasks c ! t)\<lparr>t_pc := p\<rparr>]\<rparr>"

definition emit :: "thread \<Rightarrow> event list \<Rightarrow> config \<Rightarrow> config" where
  "emit th evs c = c\<lparr>trace := trace c @ map (Pair th) evs\<rparr>"

section \<open>One step of a task\<close>

text \<open>
  Task \<open>t\<close> runs its next block. \<open>None\<close>: the task cannot move now (it waits for a pool
  thread or for a lock) or has ended.
\<close>

definition worker_step ::
  "spider \<Rightarrow> (nat \<Rightarrow> url \<Rightarrow> outcome) \<Rightarrow> nat \<Rightarrow> config \<Rightarrow> config option" where
  "worker_step sp web t c =
     (let u = t_url (tasks c ! t) in
      case t_pc (tasks c ! t) of
        W_Queued \<Rightarrow>
          if running c < nat (threads sp)
          then Some (set_pc t W_Acquire (emit (Worker t) [LogProcessing u] c))
          else None
      | W_Acquire \<Rightarrow>
          (case rlock_acquire t (connectLock c) of
             None \<Rightarrow> None
           | Some lk \<Rightarrow> Some (set_pc t W_Connect (c\<lparr>connectLock := lk\<rparr>)))
      | W_Connect \<Rightarrow>
          (case get_try web (netclock c) u of
             (l, evs) \<Rightarrow>
               Some (set_pc t (W_Finally l)
                      (emit (Worker t) evs (c\<lparr>netclock := netclock c + 1\<rparr>))))
      | W_Finally l \<Rightarrow>
          Some (set_pc t (W_GraphAcquire l) (c\<lparr>res := get_finally u l (res c)\<rparr>))
      | W_GraphAcquire l \<Rightarrow>
          (case rlock_acquire t (graphLock c) of
             None \<Rightarrow> None
           | Some lk \<Rightarrow> Some (set_pc t (W_GraphInit l) (c\<lparr>graphLock := lk\<rparr>)))
      | W_GraphInit l \<Rightarrow>
          Some (set_pc t (W_GraphRelease l) (c\<lparr>res := get_graph_init u l (res c)\<rparr>))
      | W_GraphRelease l \<Rightarrow>
          (case rlock_release t (graphLock c) of
             Inl e \<Rightarrow> Some (set_pc t (W_Raised e) c)
           | Inr lk \<Rightarrow> Some (set_pc t (W_ConnRelease l) (c\<lparr>graphLock := lk\<rparr>)))
      | W_ConnRelease l \<Rightarrow>
          (case rlock_release t (connectLock c) of
             Inl e \<Rightarrow> Some (set_pc t (W_Raised e) c)
           | Inr lk \<Rightarrow> Some (set_pc t (W_Response (response l)) (c\<lparr>connectLock := lk\<rparr>)))
      | W_Response rsp \<Rightarrow>
          (case process_response sp u rsp of
             (Inl e, evs) \<Rightarrow> Some (set_pc t (W_Raised e) (emit (Worker t) evs c))
           | (Inr None, evs) \<Rightarrow> Some (set_pc t W_Done (emit (Worker t) evs c))
           | (Inr (Some links), evs) \<Rightarrow> Some (set_pc t (W_Iter links) (emit (Worker t) evs c)))
      | W_Iter links \<Rightarrow>
          (case links of
             [] \<Rightarrow> Some (set_pc t W_Done c)
           | occ # rest \<Rightarrow>
               (case rlock_acquire t (graphLock c) of
                  None \<Rightarrow> None
                | Some lk \<Rightarrow> Some (set_pc t (W_Body occ rest) (c\<lparr>graphLock := lk\<rparr>))))
      | W_Body occ rest \<Rightarrow>
          (case link_body sp u occ (res c) of
             (Inl e, evs) \<Rightarrow> Some (set_pc t (W_Unlock rest (Some e)) (emit (Worker t) evs c))
           | (Inr r', evs) \<Rightarrow>
               Some (set_pc t (W_Unlock rest None) (emit (Worker t) evs (c\<lparr>res := r'\<rparr>))))
      | W_Unlock rest raised \<Rightarrow>
          (case rlock_release t (graphLock c) of
             Inl e \<Rightarrow> Some (set_pc t (W_Raised e) c)
           | Inr lk \<Rightarrow>
               Some (set_pc t (case raised of None \<Rightarrow> W_Iter rest | Some e \<Rightarrow> W_Raised e)
                      (c\<lparr>graphLock := lk\<rparr>)))
      | W_Done \<Rightarrow> None
      | W_Raised e \<Rightarrow> None)"

section \<open>Spider.spider: one step of the control thread\<close>

text \<open>
  \<open>M_Start\<close>: up to \<open>depth = 1\<close>. \<open>M_While d\<close>: the loop test. \<open>M_Wait d\<close>:
  \<open>wait_completion()\<close>, the level callback, the log line and the evaluation of
  \<open>range(len(results._urls))\<close>. \<open>M_Drain d n\<close>: one round of the inner loop
  (\<open>popleft\<close> raises \<open>IndexError\<close> on an empty deque) or, after the last, \<open>depth += 1\<close>.
  \<open>M_FinalWait d\<close>: the last \<open>wait_completion()\<close>; \<open>M_Done\<close>: \<open>results\<close> has been returned.
\<close>

definition main_step :: "spider \<Rightarrow> config \<Rightarrow> config option" where
  "main_step sp c =
     (case main c of
        M_Start \<Rightarrow>
          Some (add_task (self_url sp) 1
                 (emit Main ([LogSpidering (self_url sp)] @
                             (if levelCallback sp then [CbLevel 1] else []))
                   (c\<lparr>res := SpiderResults\<lparr>root := Some (self_url sp)\<rparr>, main := M_While 1\<rparr>)))
      | M_While d \<Rightarrow>
          Some (c\<lparr>main := (if d < maxDepth sp then M_Wait d else M_FinalWait d)\<rparr>)
      | M_Wait d \<Rightarrow>
          if wait_completion c
          then Some (emit Main ((if levelCallback sp then [CbLevel (d + 1)] else []) @
                                [LogLevel (d + 1)])
                      (c\<lparr>main := M_Drain d (length (urls (res c)))\<rparr>))
          else None
      | M_Drain d n \<Rightarrow>
          (case n of
             0 \<Rightarrow> Some (c\<lparr>main := M_While (d + 1)\<rparr>)
           | Suc k \<Rightarrow>
               (case urls (res c) of
                  [] \<Rightarrow> Some (c\<lparr>main := M_Raised IndexError\<rparr>)
                | u # us \<Rightarrow>
                    Some (add_task u (d + 1)
                           (c\<lparr>res := (res c)\<lparr>urls := us\<rparr>, main := M_Drain d k\<rparr>))))
      | M_FinalWait d \<Rightarrow>
          if wait_completion c
          then Some (emit Main [LogComplete] (c\<lparr>main := M_Done\<rparr>))
          else None
      | M_Done \<Rightarrow> None
      | M_Raised e \<Rightarrow> None)"

section \<open>Executions\<close>

definition step ::
  "spider \<Rightarrow> (nat \<Rightarrow> url \<Rightarrow> outcome) \<Rightarrow> config \<Rightarrow> thread \<Rightarrow> config option" where
  "step sp web c th =
     (case th of
        Main \<Rightarrow> main_step sp c
      | Worker t \<Rightarrow> if t < length (tasks c) then worker_step sp web t c else None)"

text \<open>A schedule names the thread that moves next; a thread that cannot move ends the run.\<close>

fun run ::
  "spider \<Rightarrow> (nat \<Rightarrow> url \<Rightarrow> outcome) \<Rightarrow> thread list \<Rightarrow> config \<Rightarrow> config option" where
  "run sp web [] c = Some c"
| "run sp web (th # ths) c =
     (case step sp web c th of
        None \<Rightarrow> None
      | Some c' \<Rightarrow> run sp web ths c')"

inductive reachable :: "spider \<Rightarrow> (nat \<Rightarrow> url \<Rightarrow> outcome) \<Rightarrow> config \<Rightarrow> bool"
  for sp :: spider and web :: "nat \<Rightarrow> url \<Rightarrow> outcome" where
  reachable_init: "reachable sp web init"
| reachable_step: "reachable sp web c \<Longrightarrow> step sp web c th = Some c' \<Longrightarrow> reachable sp web c'"

section \<open>Invariants of the interleaving semantics\<close>

subsection \<open>Lock ownership\<close>

text \<open>
  The blocks a task runs with the connection lock held, and those it runs with the graph
  lock held.
\<close>

definition conn_region :: "wpc \<Rightarrow> bool" where
  "conn_region p =
     (case p of
        W_Connect \<Rightarrow> True | W_Finally l \<Rightarrow> True | W_GraphAcquire l \<Rightarrow> True
      | W_GraphInit l \<Rightarrow> True | W_GraphRelease l \<Rightarrow> True | W_ConnRelease l \<Rightarrow> True
      | _ \<Rightarrow> False)"

definition graph_region :: "wpc \<Rightarrow> bool" where
  "graph_region p =
     (case p of
        W_GraphInit l \<Rightarrow> True | W_GraphRelease l \<Rightarrow> True
      | W_Body occ rest \<Rightarrow> True | W_Unlock rest raised \<Rightarrow> True
      | _ \<Rightarrow> False)"

text \<open>
  A lock agrees with the tasks: free and no task in the region, or owned once by the one
  task in the region.
\<close>

definition holds :: "(wpc \<Rightarrow> bool) \<Rightarrow> rlock \<Rightarrow> task list \<Rightarrow> bool" where
  "holds region lk tks =
     (case lk of
        None \<Rightarrow> \<forall>t < length tks. \<not> region (t_pc (tks ! t))
      | Some (owner, n) \<Rightarrow>
          n = 1 \<and> owner < length tks \<and>
          (\<forall>t < length tks. region (t_pc (tks ! t)) \<longleftrightarrow> t = owner))"

definition lock_inv :: "config \<Rightarrow> bool" where
  "lock_inv c \<longleftrightarrow>
     holds conn_region (connectLock c) (tasks c) \<and> holds graph_region (graphLock c) (tasks c)"

subsection \<open>The level barrier\<close>

text \<open>
  \<open>bar d\<close>: no task is of a level beyond \<open>d\<close>, and every task of a level below \<open>d\<close> has
  completed. The control thread keeps this for its \<open>depth\<close>, and while it drains the deque
  for the level after it; in the inner loop the count left never exceeds the deque.
\<close>

definition bar :: "int \<Rightarrow> task list \<Rightarrow> bool" where
  "bar d tks \<longleftrightarrow>
     (\<forall>tk \<in> set tks. t_level tk \<le> d \<and> (t_level tk < d \<longrightarrow> terminal (t_pc tk)))"

definition barrier_inv :: "config \<Rightarrow> bool" where
  "barrier_inv c =
     (case main c of
        M_Start \<Rightarrow> c = init
      | M_While d \<Rightarrow> bar d (tasks c)
      | M_Wait d \<Rightarrow> bar d (tasks c)
      | M_Drain d n \<Rightarrow> bar (d + 1) (tasks c) \<and> n \<le> length (urls (res c))
      | M_FinalWait d \<Rightarrow> bar d (tasks c)
      | M_Done \<Rightarrow> wait_completion c
      | M_Raised e \<Rightarrow> False)"

subsection \<open>The key of a page that answered\<close>

text \<open>
  What a task can rely on about its own key of \<open>graph\<close>: inside \<open>_get\<close>, a response
  means the fetch did not fail; once the graph block of \<open>_get\<close> has run, a response means
  the key is there; the loop is only entered with a response, and its body does not raise.
\<close>

definition key_ok :: "results \<Rightarrow> task \<Rightarrow> bool" where
  "key_ok r tk =
     (case t_pc tk of
        W_Finally l \<Rightarrow> response l \<noteq> None \<longrightarrow> \<not> isDead l
      | W_GraphAcquire l \<Rightarrow> response l \<noteq> None \<longrightarrow> \<not> isDead l
      | W_GraphInit l \<Rightarrow> response l \<noteq> None \<longrightarrow> \<not> isDead l
      | W_GraphRelease l \<Rightarrow> response l \<noteq> None \<longrightarrow> graph r (t_url tk) \<noteq> None
      | W_ConnRelease l \<Rightarrow> response l \<noteq> None \<longrightarrow> graph r (t_url tk) \<noteq> None
      | W_Response rsp \<Rightarrow> rsp \<noteq> None \<longrightarrow> graph r (t_url tk) \<noteq> None
      | W_Iter links \<Rightarrow> graph r (t_url tk) \<noteq> None
      | W_Body occ rest \<Rightarrow> graph r (t_url tk) \<noteq> None
      | W_Unlock rest raised \<Rightarrow> graph r (t_url tk) \<noteq> None \<and> raised = None
      | _ \<Rightarrow> True)"

definition key_inv :: "config \<Rightarrow> bool" where
  "key_inv c \<longleftrightarrow> (\<forall>tk \<in> set (tasks c). key_ok (res c) tk)"

subsection \<open>The visit record of a task that has fetched\<close>

text \<open>The blocks of \<open>_get\<close>, from the request for the connection lock to its release.\<close>

definition in_get :: "wpc \<Rightarrow> bool" where
  "in_get p =
     (case p of
        W_Acquire \<Rightarrow> True | W_Connect \<Rightarrow> True | W_Finally l \<Rightarrow> True
      | W_GraphAcquire l \<Rightarrow> True | W_GraphInit l \<Rightarrow> True | W_GraphRelease l \<Rightarrow> True
      | W_ConnRelease l \<Rightarrow> True
      | _ \<Rightarrow> False)"

text \<open>The task is past the block that writes \<open>results.visited[url]\<close>.\<close>

definition recorded :: "wpc \<Rightarrow> bool" where
  "recorded p =
     (case p of
        W_Queued \<Rightarrow> False | W_Acquire \<Rightarrow> False | W_Connect \<Rightarrow> False | W_Finally l \<Rightarrow> False
      | _ \<Rightarrow> True)"

definition record_inv :: "config \<Rightarrow> bool" where
  "record_inv c \<longleftrightarrow>
     (\<forall>tk \<in> set (tasks c). recorded (t_pc tk) \<longrightarrow> visited (res c) (t_url tk) \<noteq> None)"

text \<open>The blocks of the \<open>for\<close> loop over \<open>html.iterlinks()\<close>.\<close>

definition in_loop :: "wpc \<Rightarrow> bool" where
  "in_loop p =
     (case p of
        W_Iter links \<Rightarrow> True | W_Body occ rest \<Rightarrow> True | W_Unlock rest raised \<Rightarrow> True
      | _ \<Rightarrow> False)"

section \<open>Example crawls\<close>

text \<open>An HTML page at \<open>u\<close>, not redirected, with one anchor per address of \<open>ls\<close>.\<close>

definition page :: "url \<Rightarrow> url list \<Rightarrow> outcome" where
  "page u ls =
     Returns \<lparr>geturl = u, header_content_type = Some ''text/html'',
              header_content_encoding = None,
              body = Root (map (\<lambda>l. (''a'', ''href'', l, 0)) ls)\<rparr>"

text \<open>
  A site of four pages: \<open>r\<close> links to \<open>a\<close> and \<open>b\<close>, both of which link to \<open>x\<close>; every
  other address does not answer. The crawl of depth 2 from \<open>r\<close>, every callback registered,
  and a schedule that runs it to the end, one task after the other.
\<close>

definition web_E :: "nat \<Rightarrow> url \<Rightarrow> outcome" where
  "web_E n u =
     (if u = ''r'' then page u [''a'', ''b'']
      else if u = ''a'' \<or> u = ''b'' then page u [''x'']
      else Raises URLError)"

definition spider_E :: spider where
  "spider_E = \<lparr>self_url = ''r'', maxDepth = 2, timeout = 3, threads = 3,
               linkCallback = True, responseCallback = True,
               htmlCallback = True, levelCallback = True\<rparr>"

definition schedule_E :: "thread list" where
  "schedule_E =
     [Main, Main] @ replicate 16 (Worker 0) @ [Main, Main, Main, Main] @
     replicate 13 (Worker 1) @ replicate 13 (Worker 2) @ [Main, Main]"

text \<open>
  A site that does not answer at all, crawled to depth 3: the seed task runs, then the
  control thread goes through the levels.
\<close>

definition web_down :: "nat \<Rightarrow> url \<Rightarrow> outcome" where
  "web_down n u = Raises URLError"

definition spider_A :: spider where
  "spider_A = \<lparr>self_url = ''r'', maxDepth = 3, timeout = 3, threads = 3,
               linkCallback = True, responseCallback = True,
               htmlCallback = True, levelCallback = True\<rparr>"

definition schedule_A :: "thread list" where
  "schedule_A = [Main, Main] @ replicate 9 (Worker 0) @ replicate 7 Main"

text \<open>
  A site whose pages are served as HTML with a body from which the parser builds no
  document, crawled to depth 1.
\<close>

definition unparsable :: "url \<Rightarrow> response" where
  "unparsable u =
     \<lparr>geturl = u, header_content_type = Some ''text/html; charset=utf-8'',
      header_content_encoding = None, body = NoRoot\<rparr>"

definition web_P :: "nat \<Rightarrow> url \<Rightarrow> outcome" where
  "web_P n u = Returns (unparsable u)"

definition spider_P :: spider where
  "spider_P = \<lparr>self_url = ''r'', maxDepth = 1, timeout = 3, threads = 3,
               linkCallback = True, responseCallback = True,
               htmlCallback = True, levelCallback = True\<rparr>"

definition schedule_P :: "thread list" where
  "schedule_P = [Main, Main] @ replicate 9 (Worker 0) @ [Main]"

section \<open>Proofs\<close>

lemma set_pc_simps [simp]:
  "res (set_pc t p c) = res c"
  "main (set_pc t p c) = main c"
  "connectLock (set_pc t p c) = connectLock c"
  "graphLock (set_pc t p c) = graphLock c"
  "netclock (set_pc t p c) = netclock c"
  "trace (set_pc t p c) = trace c"
  "tasks (set_pc t p c) = (tasks c)[t := (tasks c ! t)\<lparr>t_pc := p\<rparr>]"
  by (simp_all add: set_pc_def)

lemma emit_simps [simp]:
  "res (emit th evs c) = res c"
  "main (emit th evs c) = main c"
  "connectLock (emit th evs c) = connectLock c"
  "graphLock (emit th evs c) = graphLock c"
  "netclock (emit th evs c) = netclock c"
  "tasks (emit th evs c) = tasks c"
  "trace (emit th evs c) = trace c @ map (Pair th) evs"
  by (simp_all add: emit_def)

lemma add_task_simps [simp]:
  "res (add_task u lvl c) = res c"
  "main (add_task u lvl c) = main c"
  "connectLock (add_task u lvl c) = connectLock c"
  "graphLock (add_task u lvl c) = graphLock c"
  "netclock (add_task u lvl c) = netclock c"
  "trace (add_task u lvl c) = trace c"
  "tasks (add_task u lvl c) = tasks c @ [\<lparr>t_url = u, t_level = lvl, t_pc = W_Queued\<rparr>]"
  by (simp_all add: add_task_def)

lemma worker_stepE:
  assumes "worker_step sp web t c = Some c'"
  obtains
    (Queued) "t_pc (tasks c ! t) = W_Queued" "running c < nat (threads sp)"
      "c' = set_pc t W_Acquire (emit (Worker t) [LogProcessing (t_url (tasks c ! t))] c)"
  | (Acquire) lk where "t_pc (tasks c ! t) = W_Acquire"
      "rlock_acquire t (connectLock c) = Some lk"
      "c' = set_pc t W_Connect (c\<lparr>connectLock := lk\<rparr>)"
  | (Connect) l evs where "t_pc (tasks c ! t) = W_Connect"
      "get_try web (netclock c) (t_url (tasks c ! t)) = (l, evs)"
      "c' = set_pc t (W_Finally l) (emit (Worker t) evs (c\<lparr>netclock := netclock c + 1\<rparr>))"
  | (Finally) l where "t_pc (tasks c ! t) = W_Finally l"
      "c' = set_pc t (W_GraphAcquire l) (c\<lparr>res := get_finally (t_url (tasks c ! t)) l (res c)\<rparr>)"
  | (GraphAcquire) l lk where "t_pc (tasks c ! t) = W_GraphAcquire l"
      "rlock_acquire t (graphLock c) = Some lk"
      "c' = set_pc t (W_GraphInit l) (c\<lparr>graphLock := lk\<rparr>)"
  | (GraphInit) l where "t_pc (tasks c ! t) = W_GraphInit l"
      "c' = set_pc t (W_GraphRelease l) (c\<lparr>res := get_graph_init (t_url (tasks c ! t)) l (res c)\<rparr>)"
  | (GraphRelease_raise) l e where "t_pc (tasks c ! t) = W_GraphRelease l"
      "rlock_release t (graphLock c) = Inl e"
      "c' = set_pc t (W_Raised e) c"
  | (GraphRelease) l lk where "t_pc (tasks c ! t) = W_GraphRelease l"
      "rlock_release t (graphLock c) = Inr lk"
      "c' = set_pc t (W_ConnRelease l) (c\<lparr>graphLock := lk\<rparr>)"
  | (ConnRelease_raise) l e where "t_pc (tasks c ! t) = W_ConnRelease l"
      "rlock_release t (connectLock c) = Inl e"
      "c' = set_pc t (W_Raised e) c"
  | (ConnRelease) l lk where "t_pc (tasks c ! t) = W_ConnRelease l"
      "rlock_release t (connectLock c) = Inr lk"
      "c' = set_pc t (W_Response (response l)) (c\<lparr>connectLock := lk\<rparr>)"
  | (Response_raise) rsp e evs where "t_pc (tasks c ! t) = W_Response rsp"
      "process_response sp (t_url (tasks c ! t)) rsp = (Inl e, evs)"
      "c' = set_pc t (W_Raised e) (emit (Worker t) evs c)"
  | (Response_return) rsp evs where "t_pc (tasks c ! t) = W_Response rsp"
      "process_response sp (t_url (tasks c ! t)) rsp = (Inr None, evs)"
      "c' = set_pc t W_Done (emit (Worker t) evs c)"
  | (Response_links) rsp links evs where "t_pc (tasks c ! t) = W_Response rsp"
      "process_response sp (t_url (tasks c ! t)) rsp = (Inr (Some links), evs)"
      "c' = set_pc t (W_Iter links) (emit (Worker t) evs c)"
  | (Iter_end) "t_pc (tasks c ! t) = W_Iter []"
      "c' = set_pc t W_Done c"
  | (Iter_next) occ rest lk where "t_pc (tasks c ! t) = W_Iter (occ # rest)"
      "rlock_acquire t (graphLock c) = Some lk"
      "c' = set_pc t (W_Body occ rest) (c\<lparr>graphLock := lk\<rparr>)"
  | (Body_raise) occ rest e evs where "t_pc (tasks c ! t) = W_Body occ rest"
      "link_body sp (t_url (tasks c ! t)) occ (res c) = (Inl e, evs)"
      "c' = set_pc t (W_Unlock rest (Some e)) (emit (Worker t) evs c)"
  | (Body) occ rest r' evs where "t_pc (tasks c ! t) = W_Body occ rest"
      "link_body sp (t_url (tasks c ! t)) occ (res c) = (Inr r', evs)"
      "c' = set_pc t (W_Unlock rest None) (emit (Worker t) evs (c\<lparr>res := r'\<rparr>))"
  | (Unlock_raise) rest raised e where "t_pc (tasks c ! t) = W_Unlock rest raised"
      "rlock_release t (graphLock c) = Inl e"
      "c' = set_pc t (W_Raised e) c"
  | (Unlock) rest raised lk where "t_pc (tasks c ! t) = W_Unlock rest raised"
      "rlock_release t (graphLock c) = Inr lk"
      "c' = set_pc t (case raised of None \<Rightarrow> W_Iter rest | Some e \<Rightarrow> W_Raised e) (c\<lparr>graphLock := lk\<rparr>)"
proof (cases "t_pc (tasks c ! t)")
  case W_Queued
  with assms show ?thesis
    by (intro Queued) (simp_all add: worker_step_def split: if_splits)
next
  case W_Acquire
  with assms show ?thesis
    by (cases "rlock_acquire t (connectLock c)") (auto simp: worker_step_def intro: Acquire)
next
  case W_Connect
  with assms show ?thesis
    by (cases "get_try web (netclock c) (t_url (tasks c ! t))") (auto simp: worker_step_def intro: Connect)
next
  case (W_Finally l)
  with assms show ?thesis
    by (auto simp: worker_step_def intro: Finally)
next
  case (W_GraphAcquire l)
  with assms show ?thesis
    by (cases "rlock_acquire t (graphLock c)") (auto simp: worker_step_def intro: GraphAcquire)
next
  case (W_GraphInit l)
  with assms show ?thesis
    by (auto simp: worker_step_def intro: GraphInit)
next
  case (W_GraphRelease l)
  with assms show ?thesis
    by (cases "rlock_release t (graphLock c)")
       (auto simp: worker_step_def intro: GraphRelease GraphRelease_raise)
next
  case (W_ConnRelease l)
  with assms show ?thesis
    by (cases "rlock_release t (connectLock c)")
       (auto simp: worker_step_def intro: ConnRelease ConnRelease_raise)
next
  case (W_Response rsp)
  obtain x evs where pr: "process_response sp (t_url (tasks c ! t)) rsp = (x, evs)"
    by (cases "process_response sp (t_url (tasks c ! t)) rsp")
  show ?thesis
  proof (cases x)
    case (Inl e)
    with assms W_Response pr show ?thesis
      by (auto simp: worker_step_def intro: Response_raise)
  next
    case (Inr y)
    with assms W_Response pr show ?thesis
      by (cases y) (auto simp: worker_step_def intro: Response_return Response_links)
  qed
next
  case (W_Iter links)
  show ?thesis
  proof (cases links)
    case Nil
    with assms W_Iter show ?thesis
      by (auto simp: worker_step_def intro: Iter_end)
  next
    case (Cons occ rest)
    with assms W_Iter show ?thesis
      by (cases "rlock_acquire t (graphLock c)") (auto simp: worker_step_def intro: Iter_next)
  qed
next
  case (W_Body occ rest)
  obtain x evs where lb: "link_body sp (t_url (tasks c ! t)) occ (res c) = (x, evs)"
    by (cases "link_body sp (t_url (tasks c ! t)) occ (res c)")
  with assms W_Body show ?thesis
    by (cases x) (auto simp: worker_step_def intro: Body Body_raise)
next
  case (W_Unlock rest raised)
  with assms show ?thesis
    by (cases "rlock_release t (graphLock c)")
       (auto simp: worker_step_def intro: Unlock Unlock_raise)
next
  case W_Done
  with assms show ?thesis by (simp add: worker_step_def)
next
  case (W_Raised e)
  with assms show ?thesis by (simp add: worker_step_def)
qed

lemma main_stepE:
  assumes "main_step sp c = Some c'"
  obtains
    (Start) "main c = M_Start"
      "c' = add_task (self_url sp) 1
                 (emit Main ([LogSpidering (self_url sp)] @
                             (if levelCallback sp then [CbLevel 1] else []))
                   (c\<lparr>res := SpiderResults\<lparr>root := Some (self_url sp)\<rparr>, main := M_While 1\<rparr>))"
  | (While) d where "main c = M_While d"
      "c' = c\<lparr>main := (if d < maxDepth sp then M_Wait d else M_FinalWait d)\<rparr>"
  | (Wait) d where "main c = M_Wait d" "wait_completion c"
      "c' = emit Main ((if levelCallback sp then [CbLevel (d + 1)] else []) @ [LogLevel (d + 1)])
                      (c\<lparr>main := M_Drain d (length (urls (res c)))\<rparr>)"
  | (Drain_end) d where "main c = M_Drain d 0" "c' = c\<lparr>main := M_While (d + 1)\<rparr>"
  | (Drain_raise) d k where "main c = M_Drain d (Suc k)" "urls (res c) = []"
      "c' = c\<lparr>main := M_Raised IndexError\<rparr>"
  | (Drain_next) d k u us where "main c = M_Drain d (Suc k)" "urls (res c) = u # us"
      "c' = add_task u (d + 1) (c\<lparr>res := (res c)\<lparr>urls := us\<rparr>, main := M_Drain d k\<rparr>)"
  | (FinalWait) d where "main c = M_FinalWait d" "wait_completion c"
      "c' = emit Main [LogComplete] (c\<lparr>main := M_Done\<rparr>)"
proof (cases "main c")
  case M_Start
  with assms show ?thesis by (intro Start) (simp_all add: main_step_def)
next
  case (M_While d)
  with assms show ?thesis by (intro While) (auto simp: main_step_def)
next
  case (M_Wait d)
  with assms show ?thesis by (intro Wait) (auto simp: main_step_def split: if_splits)
next
  case (M_Drain d n)
  show ?thesis
  proof (cases n)
    case 0
    with assms M_Drain show ?thesis by (intro Drain_end) (auto simp: main_step_def)
  next
    case (Suc k)
    with assms M_Drain show ?thesis
      by (cases "urls (res c)") (auto simp: main_step_def intro: Drain_raise Drain_next)
  qed
next
  case (M_FinalWait d)
  with assms show ?thesis by (intro FinalWait) (auto simp: main_step_def split: if_splits)
next
  case M_Done
  with assms show ?thesis by (simp add: main_step_def)
next
  case (M_Raised e)
  with assms show ?thesis by (simp add: main_step_def)
qed

lemma conn_region_simps [simp]:
  "\<not> conn_region W_Queued" "\<not> conn_region W_Acquire" "conn_region W_Connect"
  "conn_region (W_Finally l)" "conn_region (W_GraphAcquire l)" "conn_region (W_GraphInit l)"
  "conn_region (W_GraphRelease l)" "conn_region (W_ConnRelease l)"
  "\<not> conn_region (W_Response rsp)" "\<not> conn_region (W_Iter links)"
  "\<not> conn_region (W_Body occ rest)" "\<not> conn_region (W_Unlock rest raised)"
  "\<not> conn_region W_Done" "\<not> conn_region (W_Raised e)"
  by (simp_all add: conn_region_def)

lemma graph_region_simps [simp]:
  "\<not> graph_region W_Queued" "\<not> graph_region W_Acquire" "\<not> graph_region W_Connect"
  "\<not> graph_region (W_Finally l)" "\<not> graph_region (W_GraphAcquire l)" "graph_region (W_GraphInit l)"
  "graph_region (W_GraphRelease l)" "\<not> graph_region (W_ConnRelease l)"
  "\<not> graph_region (W_Response rsp)" "\<not> graph_region (W_Iter links)"
  "graph_region (W_Body occ rest)" "graph_region (W_Unlock rest raised)"
  "\<not> graph_region W_Done" "\<not> graph_region (W_Raised e)"
  by (simp_all add: graph_region_def)

text \<open>A task moves without entering or leaving the region, the lock is untouched.\<close>

lemma holds_same:
  assumes "holds region lk tks" "t < length tks" "region p = region (t_pc (tks ! t))"
  shows "holds region lk (tks[t := (tks ! t)\<lparr>t_pc := p\<rparr>])"
proof (cases lk)
  case None
  with assms show ?thesis by (simp add: holds_def nth_list_update)
next
  case (Some a)
  with assms show ?thesis by (cases a) (simp add: holds_def nth_list_update)
qed

text \<open>A task outside the region takes the free lock and enters.\<close>

lemma holds_acquire:
  assumes "holds region lk tks" "t < length tks" "\<not> region (t_pc (tks ! t))"
    "rlock_acquire t lk = Some lk'" "region p"
  shows "holds region lk' (tks[t := (tks ! t)\<lparr>t_pc := p\<rparr>])"
proof (cases lk)
  case None
  with assms show ?thesis by (auto simp: holds_def rlock_acquire_def nth_list_update)
next
  case (Some a)
  obtain owner n where a: "a = (owner, n)" by (cases a)
  from assms(1,2,3) Some a have "owner \<noteq> t" by (auto simp: holds_def)
  with assms(4) Some a show ?thesis by (simp add: rlock_acquire_def)
qed

text \<open>A task inside the region owns the lock once, so its release succeeds and frees it.\<close>

lemma holds_release_ok:
  assumes "holds region lk tks" "t < length tks" "region (t_pc (tks ! t))"
  shows "rlock_release t lk = Inr None"
proof (cases lk)
  case None
  with assms show ?thesis by (simp add: holds_def)
next
  case (Some a)
  with assms show ?thesis by (cases a) (simp add: holds_def rlock_release_def)
qed

lemma holds_release:
  assumes "holds region lk tks" "t < length tks" "region (t_pc (tks ! t))" "\<not> region p"
  shows "holds region None (tks[t := (tks ! t)\<lparr>t_pc := p\<rparr>])"
proof (cases lk)
  case None
  with assms show ?thesis by (simp add: holds_def)
next
  case (Some a)
  with assms show ?thesis by (cases a) (simp add: holds_def nth_list_update)
qed

lemma holds_append:
  assumes "holds region lk tks" "\<not> region (t_pc tk)"
  shows "holds region lk (tks @ [tk])"
proof (cases lk)
  case None
  with assms show ?thesis by (auto simp: holds_def nth_append)
next
  case (Some a)
  with assms show ?thesis by (cases a) (auto simp: holds_def nth_append)
qed

lemma lock_inv_init: "lock_inv init"
  by (simp add: lock_inv_def holds_def init_def)

lemma lock_inv_worker_step:
  assumes inv: "lock_inv c" and t: "t < length (tasks c)"
    and st: "worker_step sp web t c = Some c'"
  shows "lock_inv c'"
proof -
  from inv have hc: "holds conn_region (connectLock c) (tasks c)"
    and hg: "holds graph_region (graphLock c) (tasks c)"
    by (simp_all add: lock_inv_def)
  from st show ?thesis
  proof (cases rule: worker_stepE)
    case Queued
    with hc hg t show ?thesis by (simp add: lock_inv_def holds_same)
  next
    case (Acquire lk)
    with hc hg t show ?thesis by (simp add: lock_inv_def holds_same holds_acquire)
  next
    case (Connect l evs)
    with hc hg t show ?thesis by (simp add: lock_inv_def holds_same)
  next
    case (Finally l)
    with hc hg t show ?thesis by (simp add: lock_inv_def holds_same)
  next
    case (GraphAcquire l lk)
    with hc hg t show ?thesis by (simp add: lock_inv_def holds_same holds_acquire)
  next
    case (GraphInit l)
    with hc hg t show ?thesis by (simp add: lock_inv_def holds_same)
  next
    case (GraphRelease_raise l e)
    with holds_release_ok [OF hg t] show ?thesis by simp
  next
    case (GraphRelease l lk)
    with holds_release_ok [OF hg t] hc hg t show ?thesis
      by (simp add: lock_inv_def holds_same holds_release)
  next
    case (ConnRelease_raise l e)
    with holds_release_ok [OF hc t] show ?thesis by simp
  next
    case (ConnRelease l lk)
    with holds_release_ok [OF hc t] hc hg t show ?thesis
      by (simp add: lock_inv_def holds_same holds_release)
  next
    case (Response_raise rsp e evs)
    with hc hg t show ?thesis by (simp add: lock_inv_def holds_same)
  next
    case (Response_return rsp evs)
    with hc hg t show ?thesis by (simp add: lock_inv_def holds_same)
  next
    case (Response_links rsp links evs)
    with hc hg t show ?thesis by (simp add: lock_inv_def holds_same)
  next
    case Iter_end
    with hc hg t show ?thesis by (simp add: lock_inv_def holds_same)
  next
    case (Iter_next occ rest lk)
    with hc hg t show ?thesis by (simp add: lock_inv_def holds_same holds_acquire)
  next
    case (Body_raise occ rest e evs)
    with hc hg t show ?thesis by (simp add: lock_inv_def holds_same)
  next
    case (Body occ rest r' evs)
    with hc hg t show ?thesis by (simp add: lock_inv_def holds_same)
  next
    case (Unlock_raise rest raised e)
    with holds_release_ok [OF hg t] show ?thesis by simp
  next
    case (Unlock rest raised lk)
    with holds_release_ok [OF hg t] hc hg t show ?thesis
      by (cases raised) (simp_all add: lock_inv_def holds_same holds_release)
  qed
qed

lemma lock_inv_main_step:
  assumes inv: "lock_inv c" and st: "main_step sp c = Some c'"
  shows "lock_inv c'"
  using st inv
  by (cases rule: main_stepE) (simp_all add: lock_inv_def holds_append)

lemma lock_inv_step:
  assumes "lock_inv c" "step sp web c th = Some c'"
  shows "lock_inv c'"
proof (cases th)
  case Main
  with assms show ?thesis by (simp add: step_def) (rule lock_inv_main_step)
next
  case (Worker t)
  with assms(2) have "t < length (tasks c)" "worker_step sp web t c = Some c'"
    by (simp_all add: step_def split: if_splits)
  with assms(1) show ?thesis by (rule lock_inv_worker_step)
qed

lemma reachable_lock_inv: "reachable sp web c \<Longrightarrow> lock_inv c"
proof (induction rule: reachable.induct)
  case reachable_init
  show ?case by (rule lock_inv_init)
next
  case (reachable_step c th c')
  then show ?case by (blast intro: lock_inv_step)
qed

subsection \<open>What one block changes\<close>

lemma terminal_simps [simp]:
  "\<not> terminal W_Queued" "\<not> terminal W_Acquire" "\<not> terminal W_Connect"
  "\<not> terminal (W_Finally l)" "\<not> terminal (W_GraphAcquire l)" "\<not> terminal (W_GraphInit l)"
  "\<not> terminal (W_GraphRelease l)" "\<not> terminal (W_ConnRelease l)"
  "\<not> terminal (W_Response rsp)" "\<not> terminal (W_Iter links)"
  "\<not> terminal (W_Body occ rest)" "\<not> terminal (W_Unlock rest raised)"
  "terminal W_Done" "terminal (W_Raised e)"
  by (simp_all add: terminal_def)

lemma get_finally_simps [simp]:
  "graph (get_finally u l r) = graph r"
  "urls (get_finally u l r) = urls r"
  "root (get_finally u l r) = root r"
  by (simp_all add: get_finally_def Let_def)

lemma get_graph_init_simps [simp]:
  "visited (get_graph_init u l r) = visited r"
  "urls (get_graph_init u l r) = urls r"
  "root (get_graph_init u l r) = root r"
  by (simp_all add: get_graph_init_def)

text \<open>The loop body: nothing happens, or the lookup fails, or the link is recorded.\<close>

lemma link_bodyE:
  assumes "link_body sp u occ r = (x, evs)"
  obtains
    (skip) "x = Inr r" "evs = []"
  | (keyerror) "x = Inl KeyError" "evs = []" "graph r u = None"
  | (found) el link pos adj where "occ = (el, ''href'', link, pos)"
      "link \<notin> set (urls r)" "visited r link = None" "graph r u = Some adj" "link \<notin> set adj"
      "x = Inr (r\<lparr>urls := urls r @ [link], graph := (graph r)(u \<mapsto> adj @ [link])\<rparr>)"
      "evs = LogFoundLink link # (if linkCallback sp then [CbLink u link el] else [])"
proof -
  obtain el attr link pos where occ: "occ = (el, attr, link, pos)"
    by (cases occ)
  show ?thesis
  proof (cases "attr = ''href'' \<and> link \<notin> set (urls r) \<and> visited r link = None")
    case False
    with assms occ have "x = Inr r" "evs = []"
      by (auto simp: link_body_def)
    then show ?thesis by (rule skip)
  next
    case True
    show ?thesis
    proof (cases "graph r u")
      case None
      with True assms occ have "x = Inl KeyError" "evs = []"
        by (auto simp: link_body_def)
      then show ?thesis using None by (rule keyerror)
    next
      case (Some adj)
      show ?thesis
      proof (cases "link \<in> set adj")
        case True
        with \<open>attr = ''href'' \<and> link \<notin> set (urls r) \<and> visited r link = None\<close> Some assms occ
        have "x = Inr r" "evs = []"
          by (auto simp: link_body_def)
        then show ?thesis by (rule skip)
      next
        case False
        with True Some assms occ show ?thesis
          by (intro found [of el link pos adj]) (auto simp: link_body_def)
      qed
    qed
  qed
qed

lemma link_body_frame:
  assumes "link_body sp u occ r = (Inr r', evs)"
  shows "visited r' = visited r" "root r' = root r" "\<exists>ys. urls r' = urls r @ ys"
    "graph r v \<noteq> None \<Longrightarrow> graph r' v \<noteq> None"
  using assms by (cases rule: link_bodyE; simp; fail)+

text \<open>
  A step of a task leaves the control thread where it is, changes of the task list only
  the position of that task, which had not completed, and can only append to the deque.
\<close>

lemma worker_step_main:
  assumes "worker_step sp web t c = Some c'"
  shows "main c' = main c"
  using assms by (cases rule: worker_stepE) simp_all

lemma worker_step_tasks:
  assumes "worker_step sp web t c = Some c'"
  shows "\<exists>p. tasks c' = (tasks c)[t := (tasks c ! t)\<lparr>t_pc := p\<rparr>]"
  using assms by (cases rule: worker_stepE) auto

lemma worker_step_not_terminal:
  assumes "worker_step sp web t c = Some c'"
  shows "\<not> terminal (t_pc (tasks c ! t))"
  using assms by (cases rule: worker_stepE) simp_all

lemma worker_step_urls:
  assumes "worker_step sp web t c = Some c'"
  shows "\<exists>ys. urls (res c') = urls (res c) @ ys"
  using assms by (cases rule: worker_stepE) (auto dest: link_body_frame(3))

lemma worker_step_graph_mono:
  assumes "worker_step sp web t c = Some c'" "graph (res c) v \<noteq> None"
  shows "graph (res c') v \<noteq> None"
  using assms
  by (cases rule: worker_stepE) (auto simp: get_graph_init_def dest: link_body_frame(4))

subsection \<open>The barrier invariant\<close>

lemma bar_update:
  assumes "bar d tks" "t < length tks" "\<not> terminal (t_pc (tks ! t))"
  shows "bar d (tks[t := (tks ! t)\<lparr>t_pc := p\<rparr>])"
proof -
  from assms have lvl: "t_level (tks ! t) = d"
    unfolding bar_def by (metis nth_mem order.order_iff_strict)
  have "set (tks[t := (tks ! t)\<lparr>t_pc := p\<rparr>]) \<subseteq> insert ((tks ! t)\<lparr>t_pc := p\<rparr>) (set tks)"
    by (rule set_update_subset_insert)
  with assms(1) lvl show ?thesis
    unfolding bar_def by auto
qed

lemma bar_append:
  assumes "bar d tks"
  shows "bar d (tks @ [\<lparr>t_url = u, t_level = d, t_pc = W_Queued\<rparr>])"
  using assms unfolding bar_def by auto

lemma bar_completed:
  assumes "bar d tks" "list_all (\<lambda>tk. terminal (t_pc tk)) tks" "d \<le> e"
  shows "bar e tks"
  using assms unfolding bar_def by (auto simp: list_all_iff)

lemma wait_completion_terminal:
  "wait_completion c \<Longrightarrow> t < length (tasks c) \<Longrightarrow> terminal (t_pc (tasks c ! t))"
  by (simp add: wait_completion_def list_all_length)

lemma barrier_inv_init: "barrier_inv init"
  by (simp add: barrier_inv_def init_def)

lemma barrier_inv_worker_step:
  assumes inv: "barrier_inv c" and t: "t < length (tasks c)"
    and st: "worker_step sp web t c = Some c'"
  shows "barrier_inv c'"
proof -
  from st have m: "main c' = main c" by (rule worker_step_main)
  from st obtain p where tk: "tasks c' = (tasks c)[t := (tasks c ! t)\<lparr>t_pc := p\<rparr>]"
    using worker_step_tasks by blast
  from st have nt: "\<not> terminal (t_pc (tasks c ! t))" by (rule worker_step_not_terminal)
  from st obtain ys where ys: "urls (res c') = urls (res c) @ ys"
    using worker_step_urls by blast
  show ?thesis
  proof (cases "main c")
    case M_Start
    with inv t show ?thesis by (simp add: barrier_inv_def init_def)
  next
    case (M_While d)
    with inv m tk t nt show ?thesis by (simp add: barrier_inv_def bar_update)
  next
    case (M_Wait d)
    with inv m tk t nt show ?thesis by (simp add: barrier_inv_def bar_update)
  next
    case (M_Drain d n)
    with inv m tk t nt ys show ?thesis by (simp add: barrier_inv_def bar_update)
  next
    case (M_FinalWait d)
    with inv m tk t nt show ?thesis by (simp add: barrier_inv_def bar_update)
  next
    case M_Done
    with inv t nt show ?thesis
      by (auto simp: barrier_inv_def dest: wait_completion_terminal)
  next
    case (M_Raised e)
    with inv show ?thesis by (simp add: barrier_inv_def)
  qed
qed

lemma barrier_inv_main_step:
  assumes inv: "barrier_inv c" and st: "main_step sp c = Some c'"
  shows "barrier_inv c'"
  using st
proof (cases rule: main_stepE)
  case Start
  with inv show ?thesis by (simp add: barrier_inv_def bar_def init_def)
next
  case (While d)
  with inv show ?thesis by (simp add: barrier_inv_def)
next
  case (Wait d)
  with inv show ?thesis
    by (simp add: barrier_inv_def wait_completion_def bar_completed)
next
  case (Drain_end d)
  with inv show ?thesis by (simp add: barrier_inv_def)
next
  case (Drain_raise d k)
  with inv show ?thesis by (simp add: barrier_inv_def)
next
  case (Drain_next d k u us)
  with inv show ?thesis by (simp add: barrier_inv_def bar_append)
next
  case (FinalWait d)
  then show ?thesis by (simp add: barrier_inv_def wait_completion_def)
qed

lemma barrier_inv_step:
  assumes "barrier_inv c" "step sp web c th = Some c'"
  shows "barrier_inv c'"
proof (cases th)
  case Main
  with assms show ?thesis by (simp add: step_def) (rule barrier_inv_main_step)
next
  case (Worker t)
  with assms(2) have "t < length (tasks c)" "worker_step sp web t c = Some c'"
    by (simp_all add: step_def split: if_splits)
  with assms(1) show ?thesis by (rule barrier_inv_worker_step)
qed

lemma reachable_barrier_inv: "reachable sp web c \<Longrightarrow> barrier_inv c"
proof (induction rule: reachable.induct)
  case reachable_init
  show ?case by (rule barrier_inv_init)
next
  case (reachable_step c th c')
  then show ?case by (blast intro: barrier_inv_step)
qed

subsection \<open>The key invariant\<close>

lemma key_ok_mono:
  assumes "key_ok r tk" "\<And>v. graph r v \<noteq> None \<Longrightarrow> graph r' v \<noteq> None"
  shows "key_ok r' tk"
  using assms unfolding key_ok_def by (cases "t_pc tk") auto

lemma key_inv_update:
  assumes "key_inv c" "tasks c' = (tasks c)[t := x]" "key_ok (res c') x"
    "\<And>v. graph (res c) v \<noteq> None \<Longrightarrow> graph (res c') v \<noteq> None"
  shows "key_inv c'"
  unfolding key_inv_def
proof
  fix tk
  assume "tk \<in> set (tasks c')"
  then have "tk = x \<or> tk \<in> set (tasks c)"
    unfolding assms(2) using set_update_subset_insert [of "tasks c" t x] by blast
  then show "key_ok (res c') tk"
  proof
    assume "tk = x"
    with assms(3) show ?thesis by simp
  next
    assume "tk \<in> set (tasks c)"
    with assms(1) have "key_ok (res c) tk" by (simp add: key_inv_def)
    then show ?thesis using assms(4) by (rule key_ok_mono)
  qed
qed

lemma get_try_live:
  assumes "get_try web clk u = (l, evs)"
  shows "response l \<noteq> None \<longrightarrow> \<not> isDead l"
  using assms by (auto simp: get_try_def split: outcome.splits)

lemma process_response_links:
  assumes "process_response sp u rsp = (Inr (Some links), evs)"
  shows "rsp \<noteq> None"
  using assms by (cases rsp) (simp_all add: process_response_def)

lemma key_inv_init: "key_inv init"
  by (simp add: key_inv_def init_def)

lemma key_inv_worker_step:
  assumes inv: "key_inv c" and t: "t < length (tasks c)"
    and st: "worker_step sp web t c = Some c'"
  shows "key_inv c'"
proof -
  from inv t have ok: "key_ok (res c) (tasks c ! t)"
    by (simp add: key_inv_def)
  have mono: "\<And>v. graph (res c) v \<noteq> None \<Longrightarrow> graph (res c') v \<noteq> None"
    using st by (rule worker_step_graph_mono)
  note upd = key_inv_update [OF inv _ _ mono]
  from st show ?thesis
  proof (cases rule: worker_stepE)
    case Queued
    then show ?thesis by (intro upd) (simp, simp add: key_ok_def)
  next
    case (Acquire lk)
    then show ?thesis by (intro upd) (simp, simp add: key_ok_def)
  next
    case (Connect l evs)
    with get_try_live [OF Connect(2)] show ?thesis
      by (intro upd) (simp, simp add: key_ok_def)
  next
    case (Finally l)
    with ok show ?thesis by (intro upd) (simp, simp add: key_ok_def)
  next
    case (GraphAcquire l lk)
    with ok show ?thesis by (intro upd) (simp, simp add: key_ok_def)
  next
    case (GraphInit l)
    with ok show ?thesis by (intro upd) (simp, simp add: key_ok_def get_graph_init_def)
  next
    case (GraphRelease_raise l e)
    then show ?thesis by (intro upd) (simp, simp add: key_ok_def)
  next
    case (GraphRelease l lk)
    with ok show ?thesis by (intro upd) (simp, simp add: key_ok_def)
  next
    case (ConnRelease_raise l e)
    then show ?thesis by (intro upd) (simp, simp add: key_ok_def)
  next
    case (ConnRelease l lk)
    with ok show ?thesis by (intro upd) (simp, simp add: key_ok_def)
  next
    case (Response_raise rsp e evs)
    then show ?thesis by (intro upd) (simp, simp add: key_ok_def)
  next
    case (Response_return rsp evs)
    then show ?thesis by (intro upd) (simp, simp add: key_ok_def)
  next
    case (Response_links rsp links evs)
    with ok process_response_links [OF Response_links(2)] show ?thesis
      by (intro upd) (simp, simp add: key_ok_def)
  next
    case Iter_end
    then show ?thesis by (intro upd) (simp, simp add: key_ok_def)
  next
    case (Iter_next occ rest lk)
    with ok show ?thesis by (intro upd) (simp, simp add: key_ok_def)
  next
    case (Body_raise occ rest e evs)
    with ok have "graph (res c) (t_url (tasks c ! t)) \<noteq> None"
      by (simp add: key_ok_def)
    with Body_raise(2) show ?thesis
      by (cases rule: link_bodyE) simp_all
  next
    case (Body occ rest r' evs)
    with ok link_body_frame(4) [OF Body(2)] show ?thesis
      by (intro upd) (simp, simp add: key_ok_def)
  next
    case (Unlock_raise rest raised e)
    then show ?thesis by (intro upd) (simp, simp add: key_ok_def)
  next
    case (Unlock rest raised lk)
    show ?thesis
    proof (cases raised)
      case None
      with Unlock ok show ?thesis by (intro upd) (simp, simp add: key_ok_def)
    next
      case (Some e)
      with Unlock show ?thesis by (intro upd) (simp, simp add: key_ok_def)
    qed
  qed
qed

lemma key_inv_append:
  assumes "key_inv c" "tasks c' = tasks c @ [\<lparr>t_url = u, t_level = d, t_pc = W_Queued\<rparr>]"
    "graph (res c') = graph (res c)"
  shows "key_inv c'"
  unfolding key_inv_def
proof
  fix tk
  assume "tk \<in> set (tasks c')"
  with assms(2) have "tk = \<lparr>t_url = u, t_level = d, t_pc = W_Queued\<rparr> \<or> tk \<in> set (tasks c)"
    by auto
  then show "key_ok (res c') tk"
  proof
    assume "tk = \<lparr>t_url = u, t_level = d, t_pc = W_Queued\<rparr>"
    then show ?thesis by (simp add: key_ok_def)
  next
    assume "tk \<in> set (tasks c)"
    with assms(1) have "key_ok (res c) tk" by (simp add: key_inv_def)
    then show ?thesis by (rule key_ok_mono) (simp add: assms(3))
  qed
qed

lemma key_inv_main_step:
  assumes inv: "key_inv c" and bi: "barrier_inv c" and st: "main_step sp c = Some c'"
  shows "key_inv c'"
  using st
proof (cases rule: main_stepE)
  case Start
  with bi show ?thesis by (simp add: barrier_inv_def key_inv_def init_def key_ok_def)
next
  case (While d)
  with inv show ?thesis by (simp add: key_inv_def)
next
  case (Wait d)
  with inv show ?thesis by (simp add: key_inv_def)
next
  case (Drain_end d)
  with inv show ?thesis by (simp add: key_inv_def)
next
  case (Drain_raise d k)
  with inv show ?thesis by (simp add: key_inv_def)
next
  case (Drain_next d k u us)
  then show ?thesis by (intro key_inv_append [OF inv]) (simp, simp)
next
  case (FinalWait d)
  with inv show ?thesis by (simp add: key_inv_def)
qed

lemma reachable_key_inv: "reachable sp web c \<Longrightarrow> key_inv c"
proof (induction rule: reachable.induct)
  case reachable_init
  show ?case by (rule key_inv_init)
next
  case (reachable_step c th c')
  show ?case
  proof (cases th)
    case Main
    with reachable_step have "main_step sp c = Some c'" by (simp add: step_def)
    with reachable_step.IH reachable_barrier_inv [OF reachable_step.hyps(1)]
    show ?thesis by (rule key_inv_main_step)
  next
    case (Worker t)
    with reachable_step.hyps(2) have "t < length (tasks c)" "worker_step sp web t c = Some c'"
      by (simp_all add: step_def split: if_splits)
    with reachable_step.IH show ?thesis by (rule key_inv_worker_step)
  qed
qed

subsection \<open>The visit record invariant\<close>

lemma recorded_simps [simp]:
  "\<not> recorded W_Queued" "\<not> recorded W_Acquire" "\<not> recorded W_Connect"
  "\<not> recorded (W_Finally l)" "recorded (W_GraphAcquire l)" "recorded (W_GraphInit l)"
  "recorded (W_GraphRelease l)" "recorded (W_ConnRelease l)"
  "recorded (W_Response rsp)" "recorded (W_Iter links)"
  "recorded (W_Body occ rest)" "recorded (W_Unlock rest raised)"
  "recorded W_Done" "recorded (W_Raised e)"
  by (simp_all add: recorded_def)

lemma in_get_simps [simp]:
  "\<not> in_get W_Queued" "in_get W_Acquire" "in_get W_Connect"
  "in_get (W_Finally l)" "in_get (W_GraphAcquire l)" "in_get (W_GraphInit l)"
  "in_get (W_GraphRelease l)" "in_get (W_ConnRelease l)"
  "\<not> in_get (W_Response rsp)" "\<not> in_get (W_Iter links)"
  "\<not> in_get (W_Body occ rest)" "\<not> in_get (W_Unlock rest raised)"
  "\<not> in_get W_Done" "\<not> in_get (W_Raised e)"
  by (simp_all add: in_get_def)

lemma get_finally_visited:
  "visited (get_finally u l r) u \<noteq> None"
  "visited r v \<noteq> None \<Longrightarrow> visited (get_finally u l r) v \<noteq> None"
  by (simp_all add: get_finally_def Let_def)

lemma worker_step_visited_mono:
  assumes "worker_step sp web t c = Some c'" "visited (res c) v \<noteq> None"
  shows "visited (res c') v \<noteq> None"
  using assms
  by (cases rule: worker_stepE) (auto simp: get_finally_visited(2) link_body_frame(1))

lemma worker_step_recorded:
  assumes "worker_step sp web t c = Some c'" "t < length (tasks c)"
    "recorded (t_pc (tasks c ! t)) \<longrightarrow> visited (res c) (t_url (tasks c ! t)) \<noteq> None"
  shows "recorded (t_pc (tasks c' ! t)) \<longrightarrow> visited (res c') (t_url (tasks c' ! t)) \<noteq> None"
  using assms(1)
proof (cases rule: worker_stepE)
  case (Finally l)
  with assms(2) show ?thesis by (simp add: get_finally_visited(1))
next
  case (Body occ rest r' evs)
  with assms(2,3) link_body_frame(1) [OF Body(2)] show ?thesis by simp
next
  case (Unlock rest raised lk)
  with assms(2,3) show ?thesis by simp
qed (insert assms(2,3), simp_all)

lemma record_inv_init: "record_inv init"
  by (simp add: record_inv_def init_def)

lemma record_inv_worker_step:
  assumes inv: "record_inv c" and t: "t < length (tasks c)"
    and st: "worker_step sp web t c = Some c'"
  shows "record_inv c'"
  unfolding record_inv_def
proof (intro ballI impI)
  fix tk
  assume mem: "tk \<in> set (tasks c')" and rec: "recorded (t_pc tk)"
  from st obtain p where tks: "tasks c' = (tasks c)[t := (tasks c ! t)\<lparr>t_pc := p\<rparr>]"
    using worker_step_tasks by blast
  from mem obtain i where i: "i < length (tasks c')" "tk = tasks c' ! i"
    by (auto simp: in_set_conv_nth)
  show "visited (res c') (t_url tk) \<noteq> None"
  proof (cases "i = t")
    case True
    from inv t have "recorded (t_pc (tasks c ! t)) \<longrightarrow> visited (res c) (t_url (tasks c ! t)) \<noteq> None"
      by (simp add: record_inv_def)
    with st t have "recorded (t_pc (tasks c' ! t)) \<longrightarrow> visited (res c') (t_url (tasks c' ! t)) \<noteq> None"
      by (rule worker_step_recorded)
    with True i rec show ?thesis by simp
  next
    case False
    with i tks have "tk = tasks c ! i" "i < length (tasks c)" by simp_all
    with inv rec have "visited (res c) (t_url tk) \<noteq> None"
      by (simp add: record_inv_def)
    with st show ?thesis by (rule worker_step_visited_mono)
  qed
qed

lemma record_inv_main_step:
  assumes inv: "record_inv c" and bi: "barrier_inv c" and st: "main_step sp c = Some c'"
  shows "record_inv c'"
  using st
proof (cases rule: main_stepE)
  case Start
  with bi show ?thesis by (simp add: barrier_inv_def record_inv_def init_def)
next
  case (Drain_next d k u us)
  with inv show ?thesis by (auto simp: record_inv_def)
qed (insert inv, simp_all add: record_inv_def)

lemma reachable_record_inv: "reachable sp web c \<Longrightarrow> record_inv c"
proof (induction rule: reachable.induct)
  case reachable_init
  show ?case by (rule record_inv_init)
next
  case (reachable_step c th c')
  show ?case
  proof (cases th)
    case Main
    with reachable_step have "main_step sp c = Some c'" by (simp add: step_def)
    with reachable_step.IH reachable_barrier_inv [OF reachable_step.hyps(1)]
    show ?thesis by (rule record_inv_main_step)
  next
    case (Worker t)
    with reachable_step.hyps(2) have "t < length (tasks c)" "worker_step sp web t c = Some c'"
      by (simp_all add: step_def split: if_splits)
    with reachable_step.IH show ?thesis by (rule record_inv_worker_step)
  qed
qed

text \<open>Inside \<open>_get\<close> no block ends the task with an exception.\<close>

lemma in_get_no_raise:
  assumes li: "lock_inv c" and t: "t < length (tasks c)"
    and ig: "in_get (t_pc (tasks c ! t))"
    and st: "worker_step sp web t c = Some c'"
  shows "\<not> terminal (t_pc (tasks c' ! t))"
proof -
  from li have hc: "holds conn_region (connectLock c) (tasks c)"
    and hg: "holds graph_region (graphLock c) (tasks c)"
    by (simp_all add: lock_inv_def)
  from st show ?thesis
  proof (cases rule: worker_stepE)
    case (GraphRelease_raise l e)
    with holds_release_ok [OF hg t] show ?thesis by simp
  next
    case (ConnRelease_raise l e)
    with holds_release_ok [OF hc t] show ?thesis by simp
  qed (insert ig t, simp_all)
qed

subsection \<open>Runs and reachable configurations\<close>

lemma run_reachable:
  assumes "reachable sp web c" "run sp web sched c = Some c'"
  shows "reachable sp web c'"
  using assms
proof (induction sched arbitrary: c)
  case Nil
  then show ?case by simp
next
  case (Cons th ths)
  from Cons.prems(2) obtain c1 where c1: "step sp web c th = Some c1" "run sp web ths c1 = Some c'"
    by (auto split: option.splits)
  from Cons.prems(1) c1(1) have "reachable sp web c1" by (rule reachable_step)
  then show ?case using c1(2) by (rule Cons.IH)
qed

lemma run_init_reachable:
  assumes "run sp web sched init \<noteq> None"
  shows "reachable sp web (the (run sp web sched init))"
proof -
  from assms obtain c where "run sp web sched init = Some c" by auto
  with run_reachable [OF reachable_init this] show ?thesis by simp
qed

lemma run_append:
  "run sp web (xs @ ys) c = (case run sp web xs c of None \<Rightarrow> None | Some c' \<Rightarrow> run sp web ys c')"
  by (induction xs arbitrary: c) (auto split: option.splits)

lemma reachable_run:
  assumes "reachable sp web c"
  shows "\<exists>sched. run sp web sched init = Some c"
  using assms
proof (induction rule: reachable.induct)
  case reachable_init
  have "run sp web [] init = Some init" by simp
  then show ?case by blast
next
  case (reachable_step c th c')
  then obtain sched where "run sp web sched init = Some c" by blast
  with reachable_step.hyps(2) have "run sp web (sched @ [th]) init = Some c'"
    by (simp add: run_append)
  then show ?case by blast
qed

text \<open>
  C9. Whenever a task is in its loop over the links of a page, the address of the page
  is a key of \<open>graph\<close>: the lookup \<open>results.graph[url]\<close> in the loop body finds it, so the
  body returns normally (no \<open>KeyError\<close>), and the block that releases the lock has no
  pending exception.
\<close>

theorem loop_has_graph_key:
  assumes "reachable sp web c" and "t < length (tasks c)"
    and "in_loop (t_pc (tasks c ! t))"
  shows "graph (res c) (t_url (tasks c ! t)) \<noteq> None \<and>
    (\<forall>occ rest. t_pc (tasks c ! t) = W_Body occ rest \<longrightarrow>
       (\<exists>r' evs. link_body sp (t_url (tasks c ! t)) occ (res c) = (Inr r', evs))) \<and>
    (\<forall>rest raised. t_pc (tasks c ! t) = W_Unlock rest raised \<longrightarrow> raised = None)"
proof -
  from assms(1) have "key_inv c" by (rule reachable_key_inv)
  with assms(2) have ok: "key_ok (res c) (tasks c ! t)"
    by (simp add: key_inv_def)
  with assms(3) have key: "graph (res c) (t_url (tasks c ! t)) \<noteq> None"
    by (cases "t_pc (tasks c ! t)") (simp_all add: key_ok_def in_loop_def)
  have "\<exists>r' evs. link_body sp (t_url (tasks c ! t)) occ (res c) = (Inr r', evs)" for occ
  proof -
    obtain x evs where lb: "link_body sp (t_url (tasks c ! t)) occ (res c) = (x, evs)"
      by (cases "link_body sp (t_url (tasks c ! t)) occ (res c)")
    from lb key have "\<exists>r'. x = Inr r'"
      by (cases rule: link_bodyE) simp_all
    with lb show ?thesis by blast
  qed
  moreover have "raised = None" if "t_pc (tasks c ! t) = W_Unlock rest raised" for rest raised
    using ok that by (simp add: key_ok_def)
  ultimately show ?thesis using key by blast
qed

theorem loop_has_graph_key_witness:
  "reachable spider_E web_E (the (run spider_E web_E (take 12 schedule_E) init)) \<and>
   0 < length (tasks (the (run spider_E web_E (take 12 schedule_E) init))) \<and>
   in_loop (t_pc (tasks (the (run spider_E web_E (take 12 schedule_E) init)) ! 0)) \<and>
   t_pc (tasks (the (run spider_E web_E (take 12 schedule_E) init)) ! 0) =
     W_Body (''a'', ''href'', ''a'', 0) [(''a'', ''href'', ''b'', 0)] \<and>
   graph (res (the (run spider_E web_E (take 12 schedule_E) init))) ''r'' = Some [] \<and>
   (\<exists>r' evs. link_body spider_E ''r'' (''a'', ''href'', ''a'', 0)
       (res (the (run spider_E web_E (take 12 schedule_E) init))) = (Inr r', evs))"
proof -
  let ?c = "the (run spider_E web_E (take 12 schedule_E) init)"
  have "run spider_E web_E (take 12 schedule_E) init \<noteq> None" by code_simp
  then have r: "reachable spider_E web_E ?c" by (rule run_init_reachable)
  have t: "0 < length (tasks ?c)" by code_simp
  have l: "in_loop (t_pc (tasks ?c ! 0))" by code_simp
  have p: "t_pc (tasks ?c ! 0) = W_Body (''a'', ''href'', ''a'', 0) [(''a'', ''href'', ''b'', 0)]"
    by code_simp
  have u: "t_url (tasks ?c ! 0) = ''r''" by code_simp
  have g: "graph (res ?c) ''r'' = Some []" by code_simp
  from loop_has_graph_key [OF r t l] p u
  have "\<exists>r' evs. link_body spider_E ''r'' (''a'', ''href'', ''a'', 0) (res ?c) = (Inr r', evs)"
    by simp
  with r t l p g show ?thesis by blast
qed

subsection \<open>What \<open>_get\<close> writes\<close>

lemma Spider_get_visited:
  "visited (fst (snd (Spider_get web clk u r))) u =
     Some (case web clk u of
        Returns resp \<Rightarrow>
          \<lparr>v_redirected = (u \<noteq> geturl resp), v_redirectUrl = geturl resp,
           v_content_type = header_content_type resp,
           v_content_enc = header_content_encoding resp,
           v_dead = False, v_exc = None,
           v_times = (case visited r u of Some v \<Rightarrow> v_times v + 1 | None \<Rightarrow> 1)\<rparr>
      | Raises e \<Rightarrow>
          \<lparr>v_redirected = False, v_redirectUrl = u,
           v_content_type = Some [], v_content_enc = Some [],
           v_dead = True, v_exc = Some e,
           v_times = (case visited r u of Some v \<Rightarrow> v_times v + 1 | None \<Rightarrow> 1)\<rparr>)"
  by (cases "web clk u")
     (simp_all add: Spider_get_def get_try_def get_finally_def Let_def)

lemma Spider_get_response:
  "fst (Spider_get web clk u r) = (case web clk u of Returns resp \<Rightarrow> Some resp | Raises e \<Rightarrow> None)"
  by (cases "web clk u") (simp_all add: Spider_get_def get_try_def)

lemma Spider_get_graph:
  "graph (fst (snd (Spider_get web clk u r))) =
     (case web clk u of
        Returns resp \<Rightarrow> (if graph r u = None then (graph r)(u \<mapsto> []) else graph r)
      | Raises e \<Rightarrow> graph r)"
  by (cases "web clk u")
     (simp_all add: Spider_get_def get_try_def get_graph_init_def get_finally_def Let_def)

lemma Spider_get_urls: "urls (fst (snd (Spider_get web clk u r))) = urls r"
  by (cases "web clk u") (simp_all add: Spider_get_def get_try_def)

text \<open>
  C10. The visit record of a failed fetch: not redirected, the redirect address is the
  requested one, both header fields are the empty string, \<open>dead\<close> is set and \<open>exc\<close> is the
  type of the exception raised; the counter is one more than the record it replaces had,
  or 1. Nothing is returned.
\<close>

theorem failed_fetch_record:
  assumes "web clk u = Raises e"
  shows "visited (fst (snd (Spider_get web clk u r))) u =
           Some \<lparr>v_redirected = False, v_redirectUrl = u,
                 v_content_type = Some [], v_content_enc = Some [],
                 v_dead = True, v_exc = Some e,
                 v_times = (case visited r u of Some v \<Rightarrow> v_times v + 1 | None \<Rightarrow> 1)\<rparr> \<and>
         fst (Spider_get web clk u r) = None"
  using assms by (simp add: Spider_get_visited Spider_get_response)

theorem failed_fetch_record_witness:
  "web_down 0 ''r'' = Raises URLError \<and>
   visited (fst (snd (Spider_get web_down 0 ''r'' SpiderResults))) ''r'' =
     Some \<lparr>v_redirected = False, v_redirectUrl = ''r'',
           v_content_type = Some [], v_content_enc = Some [],
           v_dead = True, v_exc = Some URLError, v_times = 1\<rparr>"
proof -
  have h: "web_down 0 ''r'' = Raises URLError" by (simp add: web_down_def)
  from failed_fetch_record [of web_down 0 "''r''" URLError SpiderResults] h show ?thesis
    by (simp add: SpiderResults_def)
qed

text \<open>
  C5. Every call of \<open>_get\<close> leaves a visit record for its address, with the failure in the
  record (\<open>dead\<close> and \<open>exc\<close>) and \<open>None\<close> returned when \<open>urlopen\<close> raised. In the crawl no
  block of \<open>_get\<close> ends its task with an exception or moves the control thread, and a task
  to which \<open>_get\<close> has returned finds its address in \<open>visited\<close>.
\<close>

theorem fetch_recorded_never_raised:
  "(\<exists>v. visited (fst (snd (Spider_get web clk u r))) u = Some v \<and>
        (case web clk u of
           Raises e \<Rightarrow> fst (Spider_get web clk u r) = None \<and> v_dead v \<and> v_exc v = Some e
         | Returns resp \<Rightarrow>
             fst (Spider_get web clk u r) = Some resp \<and> \<not> v_dead v \<and> v_exc v = None)) \<and>
   (reachable sp web c \<and> t < length (tasks c) \<and> in_get (t_pc (tasks c ! t)) \<and>
      step sp web c (Worker t) = Some c' \<longrightarrow>
      \<not> terminal (t_pc (tasks c' ! t)) \<and> main c' = main c) \<and>
   (reachable sp web c \<and> t < length (tasks c) \<and> t_pc (tasks c ! t) = W_Response rsp \<longrightarrow>
      visited (res c) (t_url (tasks c ! t)) \<noteq> None)"
proof (intro conjI impI)
  show "\<exists>v. visited (fst (snd (Spider_get web clk u r))) u = Some v \<and>
        (case web clk u of
           Raises e \<Rightarrow> fst (Spider_get web clk u r) = None \<and> v_dead v \<and> v_exc v = Some e
         | Returns resp \<Rightarrow>
             fst (Spider_get web clk u r) = Some resp \<and> \<not> v_dead v \<and> v_exc v = None)"
    by (cases "web clk u") (simp_all add: Spider_get_visited Spider_get_response)
next
  assume h: "reachable sp web c \<and> t < length (tasks c) \<and> in_get (t_pc (tasks c ! t)) \<and>
      step sp web c (Worker t) = Some c'"
  then have st: "worker_step sp web t c = Some c'"
    by (simp add: step_def split: if_splits)
  from h have "reachable sp web c" by simp
  then have "lock_inv c" by (rule reachable_lock_inv)
  with h st show "\<not> terminal (t_pc (tasks c' ! t))"
    by (simp add: in_get_no_raise)
  from st show "main c' = main c" by (rule worker_step_main)
next
  assume h: "reachable sp web c \<and> t < length (tasks c) \<and> t_pc (tasks c ! t) = W_Response rsp"
  then have "reachable sp web c" by simp
  then have "record_inv c" by (rule reachable_record_inv)
  with h show "visited (res c) (t_url (tasks c ! t)) \<noteq> None"
    by (simp add: record_inv_def)
qed

theorem fetch_recorded_never_raised_witness:
  "reachable spider_A web_down (the (run spider_A web_down (take 4 schedule_A) init)) \<and>
   0 < length (tasks (the (run spider_A web_down (take 4 schedule_A) init))) \<and>
   in_get (t_pc (tasks (the (run spider_A web_down (take 4 schedule_A) init)) ! 0)) \<and>
   step spider_A web_down (the (run spider_A web_down (take 4 schedule_A) init)) (Worker 0) =
     Some (the (run spider_A web_down (take 5 schedule_A) init)) \<and>
   \<not> terminal (t_pc (tasks (the (run spider_A web_down (take 5 schedule_A) init)) ! 0)) \<and>
   reachable spider_A web_down (the (run spider_A web_down (take 10 schedule_A) init)) \<and>
   t_pc (tasks (the (run spider_A web_down (take 10 schedule_A) init)) ! 0) = W_Response None \<and>
   visited (res (the (run spider_A web_down (take 10 schedule_A) init))) ''r'' \<noteq> None"
proof -
  let ?c = "the (run spider_A web_down (take 4 schedule_A) init)"
  let ?c' = "the (run spider_A web_down (take 5 schedule_A) init)"
  let ?d = "the (run spider_A web_down (take 10 schedule_A) init)"
  have "run spider_A web_down (take 4 schedule_A) init \<noteq> None" by code_simp
  then have r: "reachable spider_A web_down ?c" by (rule run_init_reachable)
  have t: "0 < length (tasks ?c)" by code_simp
  have g: "in_get (t_pc (tasks ?c ! 0))" by code_simp
  have "take 5 schedule_A = take 4 schedule_A @ [Worker 0]" by code_simp
  moreover have "run spider_A web_down (take 5 schedule_A) init \<noteq> None" by code_simp
  ultimately have s: "step spider_A web_down ?c (Worker 0) = Some ?c'"
    by (auto simp: run_append split: option.splits)
  have "run spider_A web_down (take 10 schedule_A) init \<noteq> None" by code_simp
  then have r2: "reachable spider_A web_down ?d" by (rule run_init_reachable)
  have t2: "0 < length (tasks ?d)" by code_simp
  have p2: "t_pc (tasks ?d ! 0) = W_Response None" by code_simp
  have u2: "t_url (tasks ?d ! 0) = ''r''" by code_simp
  from fetch_recorded_never_raised [of web_down 0 "''r''" SpiderResults spider_A ?c 0 ?c']
    r t g s
  have a: "\<not> terminal (t_pc (tasks ?c' ! 0))" by blast
  from fetch_recorded_never_raised [of web_down 0 "''r''" SpiderResults spider_A ?d 0 ?d None]
    r2 t2 p2 u2
  have b: "visited (res ?d) ''r'' \<noteq> None" by simp
  from r t g s a r2 p2 b show ?thesis by blast
qed

subsection \<open>Who changes the graph\<close>

lemma holds_owner:
  assumes "holds region lk tks" "t < length tks" "region (t_pc (tks ! t))"
  shows "lk = Some (t, 1)"
proof (cases lk)
  case None
  with assms show ?thesis by (simp add: holds_def)
next
  case (Some a)
  with assms show ?thesis by (cases a) (simp add: holds_def)
qed

lemma worker_step_graph_changed:
  assumes st: "worker_step sp web t c = Some c'" and ch: "graph (res c') \<noteq> graph (res c)"
  shows "graph_region (t_pc (tasks c ! t))"
  using st
proof (cases rule: worker_stepE)
  case (GraphInit l)
  then show ?thesis by simp
next
  case (Body occ rest r' evs)
  then show ?thesis by simp
qed (insert ch, simp_all)

lemma main_step_graph:
  assumes "main_step sp c = Some c'" "barrier_inv c"
  shows "graph (res c') = graph (res c)"
  using assms
  by (cases rule: main_stepE) (simp_all add: barrier_inv_def init_def SpiderResults_def)

text \<open>
  C3, as the code has it. \<open>_get\<close> makes the address a key of \<open>graph\<close> when the fetch
  returned a response, and leaves \<open>graph\<close> as it was when the fetch raised; in the crawl
  the key is there once \<open>_get\<close> has returned a response to the task; and whatever step
  changes \<open>graph\<close> is taken by a task that then owns the graph lock.
\<close>

theorem graph_key_after_successful_fetch:
  "(case web clk u of
      Returns resp \<Rightarrow> graph (fst (snd (Spider_get web clk u r))) u \<noteq> None
    | Raises e \<Rightarrow> graph (fst (snd (Spider_get web clk u r))) = graph r) \<and>
   (reachable sp web c \<and> t < length (tasks c) \<and> t_pc (tasks c ! t) = W_Response (Some resp) \<longrightarrow>
      graph (res c) (t_url (tasks c ! t)) \<noteq> None) \<and>
   (reachable sp web c \<and> step sp web c th = Some c' \<and> graph (res c') \<noteq> graph (res c) \<longrightarrow>
      (\<exists>t'. th = Worker t' \<and> t' < length (tasks c) \<and> graphLock c = Some (t', 1)))"
proof (intro conjI impI)
  show "case web clk u of
      Returns resp \<Rightarrow> graph (fst (snd (Spider_get web clk u r))) u \<noteq> None
    | Raises e \<Rightarrow> graph (fst (snd (Spider_get web clk u r))) = graph r"
    by (cases "web clk u") (simp_all add: Spider_get_graph)
next
  assume h: "reachable sp web c \<and> t < length (tasks c) \<and> t_pc (tasks c ! t) = W_Response (Some resp)"
  then have "reachable sp web c" by simp
  then have "key_inv c" by (rule reachable_key_inv)
  with h have "key_ok (res c) (tasks c ! t)" by (simp add: key_inv_def)
  with h show "graph (res c) (t_url (tasks c ! t)) \<noteq> None" by (simp add: key_ok_def)
next
  assume h: "reachable sp web c \<and> step sp web c th = Some c' \<and> graph (res c') \<noteq> graph (res c)"
  then have r: "reachable sp web c" by simp
  from r have li: "lock_inv c" by (rule reachable_lock_inv)
  from r have bi: "barrier_inv c" by (rule reachable_barrier_inv)
  show "\<exists>t'. th = Worker t' \<and> t' < length (tasks c) \<and> graphLock c = Some (t', 1)"
  proof (cases th)
    case Main
    with h have "main_step sp c = Some c'" by (simp add: step_def)
    then have "graph (res c') = graph (res c)" using bi by (rule main_step_graph)
    with h show ?thesis by simp
  next
    case (Worker t')
    with h have t': "t' < length (tasks c)" and st: "worker_step sp web t' c = Some c'"
      by (simp_all add: step_def split: if_splits)
    from st h have "graph_region (t_pc (tasks c ! t'))"
      by (simp add: worker_step_graph_changed)
    moreover from li have "holds graph_region (graphLock c) (tasks c)"
      by (simp add: lock_inv_def)
    ultimately have "graphLock c = Some (t', 1)"
      using t' by (blast intro: holds_owner)
    with Worker t' show ?thesis by simp
  qed
qed

theorem graph_key_after_successful_fetch_witness:
  "reachable spider_E web_E (the (run spider_E web_E (take 10 schedule_E) init)) \<and>
   t_pc (tasks (the (run spider_E web_E (take 10 schedule_E) init)) ! 0) =
     W_Response (Some \<lparr>geturl = ''r'', header_content_type = Some ''text/html'',
        header_content_encoding = None,
        body = Root [(''a'', ''href'', ''a'', 0), (''a'', ''href'', ''b'', 0)]\<rparr>) \<and>
   graph (res (the (run spider_E web_E (take 10 schedule_E) init))) ''r'' \<noteq> None \<and>
   reachable spider_E web_E (the (run spider_E web_E (take 12 schedule_E) init)) \<and>
   step spider_E web_E (the (run spider_E web_E (take 12 schedule_E) init)) (Worker 0) =
     Some (the (run spider_E web_E (take 13 schedule_E) init)) \<and>
   graph (res (the (run spider_E web_E (take 13 schedule_E) init))) \<noteq>
     graph (res (the (run spider_E web_E (take 12 schedule_E) init))) \<and>
   graphLock (the (run spider_E web_E (take 12 schedule_E) init)) = Some (0, 1)"
proof -
  let ?b = "the (run spider_E web_E (take 10 schedule_E) init)"
  let ?c = "the (run spider_E web_E (take 12 schedule_E) init)"
  let ?c' = "the (run spider_E web_E (take 13 schedule_E) init)"
  let ?resp = "\<lparr>geturl = ''r'', header_content_type = Some ''text/html'',
        header_content_encoding = None,
        body = Root [(''a'', ''href'', ''a'', 0), (''a'', ''href'', ''b'', 0)]\<rparr>"
  have "run spider_E web_E (take 10 schedule_E) init \<noteq> None" by code_simp
  then have rb: "reachable spider_E web_E ?b" by (rule run_init_reachable)
  have tb: "0 < length (tasks ?b)" by code_simp
  have pb: "t_pc (tasks ?b ! 0) = W_Response (Some ?resp)" by code_simp
  have ub: "t_url (tasks ?b ! 0) = ''r''" by code_simp
  have "run spider_E web_E (take 12 schedule_E) init \<noteq> None" by code_simp
  then have r: "reachable spider_E web_E ?c" by (rule run_init_reachable)
  have "take 13 schedule_E = take 12 schedule_E @ [Worker 0]" by code_simp
  moreover have "run spider_E web_E (take 13 schedule_E) init \<noteq> None" by code_simp
  ultimately have s: "step spider_E web_E ?c (Worker 0) = Some ?c'"
    by (auto simp: run_append split: option.splits)
  have "graph (res ?c') ''r'' \<noteq> graph (res ?c) ''r''" by code_simp
  then have g: "graph (res ?c') \<noteq> graph (res ?c)" by metis
  from graph_key_after_successful_fetch [of web_E 0 "''r''" SpiderResults spider_E ?b 0 ?resp]
    rb tb pb ub
  have k: "graph (res ?b) ''r'' \<noteq> None" by simp
  from graph_key_after_successful_fetch
    [of web_E 0 "''r''" SpiderResults spider_E ?c 0 ?resp "Worker 0" ?c'] r s g
  have "graphLock ?c = Some (0, 1)" by simp
  with rb pb k r s g show ?thesis by blast
qed

text \<open>
  The claim as the spec words it fails: a fetch of \<open>r\<close> was made and the crawl has ended, yet
  \<open>r\<close> is no key of \<open>graph\<close>, because the fetch failed.
\<close>

theorem graph_key_from_fetch_start_counterexample:
  "\<not> ((Worker 0, Urlopen ''r'') \<in> set (trace (the (run spider_A web_down schedule_A init))) \<and>
       main (the (run spider_A web_down schedule_A init)) = M_Done \<longrightarrow>
       graph (res (the (run spider_A web_down schedule_A init))) ''r'' \<noteq> None)"
  by code_simp

subsection \<open>A page that does not parse\<close>

lemma process_response_unparsed:
  assumes "ishtml resp = Inr True" "\<forall>links. body resp \<noteq> Root links"
  shows "process_response sp u (Some resp) =
           ((case body resp of ParseRaises e \<Rightarrow> Inl e | _ \<Rightarrow> Inr None),
            if responseCallback sp then [CbResponse u] else [])"
  using assms by (cases "body resp") (simp_all add: process_response_def)

text \<open>
  C4. A page served as HTML whose body yields no document (the root is \<open>None\<close>, or the
  parser raises): \<open>_processPage\<close> leaves a visit record that is not dead, the key of the
  page in \<open>graph\<close> with the list it had (the empty list for a new key), the deque as it
  was, and no link event; with no root it returns normally. In the crawl the block after
  \<open>_get\<close> ends the task, changes no result and leaves the control thread where it is.
\<close>

theorem parse_failure_no_links:
  "(web clk u = Returns resp \<and> ishtml resp = Inr True \<and> (\<forall>links. body resp \<noteq> Root links) \<longrightarrow>
      (\<exists>v. visited (fst (snd (Spider_processPage sp web clk u r))) u = Some v \<and> \<not> v_dead v) \<and>
      graph (fst (snd (Spider_processPage sp web clk u r))) =
        (if graph r u = None then (graph r)(u \<mapsto> []) else graph r) \<and>
      urls (fst (snd (Spider_processPage sp web clk u r))) = urls r \<and>
      snd (snd (Spider_processPage sp web clk u r)) =
        [LogProcessing u, LogConnecting u, Urlopen u] @
        (if responseCallback sp then [CbResponse u] else []) \<and>
      (body resp = NoRoot \<longrightarrow> fst (Spider_processPage sp web clk u r) = Inr ())) \<and>
   (reachable sp web c \<and> t < length (tasks c) \<and> t_pc (tasks c ! t) = W_Response (Some resp) \<and>
    ishtml resp = Inr True \<and> (\<forall>links. body resp \<noteq> Root links) \<and>
    step sp web c (Worker t) = Some c' \<longrightarrow>
      res c' = res c \<and> main c' = main c \<and> terminal (t_pc (tasks c' ! t)) \<and>
      (body resp = NoRoot \<longrightarrow> t_pc (tasks c' ! t) = W_Done) \<and>
      trace c' = trace c @
        (if responseCallback sp then [(Worker t, CbResponse (t_url (tasks c ! t)))] else []))"
proof (intro conjI impI)
  assume h: "web clk u = Returns resp \<and> ishtml resp = Inr True \<and> (\<forall>links. body resp \<noteq> Root links)"
  then have w: "web clk u = Returns resp" by simp
  from h have pr: "process_response sp u (Some resp) =
           ((case body resp of ParseRaises e \<Rightarrow> Inl e | _ \<Rightarrow> Inr None),
            if responseCallback sp then [CbResponse u] else [])"
    by (simp add: process_response_unparsed)
  obtain r1 where g: "Spider_get web clk u r = (Some resp, r1, [LogConnecting u, Urlopen u])"
    using w by (simp add: Spider_get_def get_try_def)
  from g have r1: "r1 = fst (snd (Spider_get web clk u r))" by simp
  have pp: "Spider_processPage sp web clk u r =
      ((case body resp of ParseRaises e \<Rightarrow> Inl e | _ \<Rightarrow> Inr ()), r1,
       [LogProcessing u, LogConnecting u, Urlopen u] @
       (if responseCallback sp then [CbResponse u] else []))"
    using g pr h by (cases "body resp") (simp_all add: Spider_processPage_def)
  from pp r1 w show "\<exists>v. visited (fst (snd (Spider_processPage sp web clk u r))) u = Some v \<and> \<not> v_dead v"
    by (simp add: Spider_get_visited)
  from pp r1 w show "graph (fst (snd (Spider_processPage sp web clk u r))) =
        (if graph r u = None then (graph r)(u \<mapsto> []) else graph r)"
    by (simp add: Spider_get_graph)
  from pp r1 show "urls (fst (snd (Spider_processPage sp web clk u r))) = urls r"
    by (simp add: Spider_get_urls)
  from pp show "snd (snd (Spider_processPage sp web clk u r)) =
        [LogProcessing u, LogConnecting u, Urlopen u] @
        (if responseCallback sp then [CbResponse u] else [])"
    by simp
  from pp show "fst (Spider_processPage sp web clk u r) = Inr ()" if "body resp = NoRoot"
    using that by simp
next
  assume h: "reachable sp web c \<and> t < length (tasks c) \<and> t_pc (tasks c ! t) = W_Response (Some resp) \<and>
    ishtml resp = Inr True \<and> (\<forall>links. body resp \<noteq> Root links) \<and>
    step sp web c (Worker t) = Some c'"
  then have t: "t < length (tasks c)" and pc: "t_pc (tasks c ! t) = W_Response (Some resp)"
    and st: "worker_step sp web t c = Some c'"
    by (simp_all add: step_def split: if_splits)
  from h have pr: "process_response sp (t_url (tasks c ! t)) (Some resp) =
           ((case body resp of ParseRaises e \<Rightarrow> Inl e | _ \<Rightarrow> Inr None),
            if responseCallback sp then [CbResponse (t_url (tasks c ! t))] else [])"
    by (simp add: process_response_unparsed)
  have c': "c' = set_pc t (case body resp of ParseRaises e \<Rightarrow> W_Raised e | _ \<Rightarrow> W_Done)
      (emit (Worker t) (if responseCallback sp then [CbResponse (t_url (tasks c ! t))] else []) c)"
    using st pc pr h by (cases "body resp") (simp_all add: worker_step_def)
  from c' show "res c' = res c" by simp
  from c' show "main c' = main c" by simp
  from c' t show "terminal (t_pc (tasks c' ! t))" by (cases "body resp") simp_all
  from c' t show "t_pc (tasks c' ! t) = W_Done" if "body resp = NoRoot"
    using that by simp
  from c' show "trace c' = trace c @
        (if responseCallback sp then [(Worker t, CbResponse (t_url (tasks c ! t)))] else [])"
    by simp
qed

theorem parse_failure_no_links_witness:
  "web_P 0 ''r'' = Returns (unparsable ''r'') \<and> ishtml (unparsable ''r'') = Inr True \<and>
   (\<forall>links. body (unparsable ''r'') \<noteq> Root links) \<and>
   graph (fst (snd (Spider_processPage spider_P web_P 0 ''r'' SpiderResults))) ''r'' = Some [] \<and>
   fst (Spider_processPage spider_P web_P 0 ''r'' SpiderResults) = Inr () \<and>
   reachable spider_P web_P (the (run spider_P web_P (take 10 schedule_P) init)) \<and>
   0 < length (tasks (the (run spider_P web_P (take 10 schedule_P) init))) \<and>
   t_pc (tasks (the (run spider_P web_P (take 10 schedule_P) init)) ! 0) =
     W_Response (Some (unparsable ''r'')) \<and>
   step spider_P web_P (the (run spider_P web_P (take 10 schedule_P) init)) (Worker 0) =
     Some (the (run spider_P web_P (take 11 schedule_P) init)) \<and>
   res (the (run spider_P web_P (take 11 schedule_P) init)) =
     res (the (run spider_P web_P (take 10 schedule_P) init)) \<and>
   t_pc (tasks (the (run spider_P web_P (take 11 schedule_P) init)) ! 0) = W_Done"
proof -
  let ?c = "the (run spider_P web_P (take 10 schedule_P) init)"
  let ?c' = "the (run spider_P web_P (take 11 schedule_P) init)"
  have w: "web_P 0 ''r'' = Returns (unparsable ''r'')" by (simp add: web_P_def)
  have i: "ishtml (unparsable ''r'') = Inr True" by code_simp
  have b: "\<forall>links. body (unparsable ''r'') \<noteq> Root links" by (simp add: unparsable_def)
  have n: "body (unparsable ''r'') = NoRoot" by (simp add: unparsable_def)
  have "run spider_P web_P (take 10 schedule_P) init \<noteq> None" by code_simp
  then have r: "reachable spider_P web_P ?c" by (rule run_init_reachable)
  have t: "0 < length (tasks ?c)" by code_simp
  have p: "t_pc (tasks ?c ! 0) = W_Response (Some (unparsable ''r''))" by code_simp
  have "take 11 schedule_P = take 10 schedule_P @ [Worker 0]" by code_simp
  moreover have "run spider_P web_P (take 11 schedule_P) init \<noteq> None" by code_simp
  ultimately have s: "step spider_P web_P ?c (Worker 0) = Some ?c'"
    by (auto simp: run_append split: option.splits)
  note inst = parse_failure_no_links
    [of web_P 0 "''r''" "unparsable ''r''" spider_P SpiderResults ?c 0 ?c']
  from inst w i b n
  have a1: "graph (fst (snd (Spider_processPage spider_P web_P 0 ''r'' SpiderResults))) ''r'' = Some []"
    and a2: "fst (Spider_processPage spider_P web_P 0 ''r'' SpiderResults) = Inr ()"
    by (simp_all add: SpiderResults_def)
  from inst r t p i b n s
  have b1: "res ?c' = res ?c" and b2: "t_pc (tasks ?c' ! 0) = W_Done"
    by simp_all
  from w i b a1 a2 r t p s b1 b2 show ?thesis by blast
qed

end
